theory Spec2Isabelle
  imports Main
begin

section \<open>Python strings\<close>

text \<open>
  Cell text, job roles and paths are Python \<open>str\<close> values; they are modelled as
  \<open>string\<close>. The case mappings move the ASCII letters only and the white space of
  \<open>strip\<close> and \<open>split\<close> is the ASCII white space of \<open>str.isspace\<close>
  (tab, line feed, vertical tab, form feed, carriage return, the four separators
  0x1C..0x1F and the blank), so the model speaks about ASCII text.
\<close>

definition py_isspace :: "char \<Rightarrow> bool" where
  "py_isspace c = (c \<in> set [CHR 0x09, CHR 0x0A, CHR 0x0B, CHR 0x0C, CHR 0x0D,
                              CHR 0x1C, CHR 0x1D, CHR 0x1E, CHR 0x1F, CHR 0x20])"

definition py_strip :: "string \<Rightarrow> string" where
  "py_strip s = rev (dropWhile py_isspace (rev (dropWhile py_isspace s)))"

definition lower_char :: "char \<Rightarrow> char" where
  "lower_char c =
     (case map_of (zip ''ABCDEFGHIJKLMNOPQRSTUVWXYZ'' ''abcdefghijklmnopqrstuvwxyz'') c of
        None \<Rightarrow> c | Some d \<Rightarrow> d)"

definition upper_char :: "char \<Rightarrow> char" where
  "upper_char c =
     (case map_of (zip ''abcdefghijklmnopqrstuvwxyz'' ''ABCDEFGHIJKLMNOPQRSTUVWXYZ'') c of
        None \<Rightarrow> c | Some d \<Rightarrow> d)"

definition py_lower :: "string \<Rightarrow> string" where
  "py_lower s = map lower_char s"

definition py_upper :: "string \<Rightarrow> string" where
  "py_upper s = map upper_char s"

text \<open>\<open>s.split()\<close> with no argument: the maximal runs of non-space characters.
  The second argument is the word being read.\<close>

fun split_ws :: "string \<Rightarrow> string \<Rightarrow> string list" where
  "split_ws [] w = (if w = [] then [] else [w])"
| "split_ws (c # cs) w =
     (if py_isspace c then (if w = [] then split_ws cs [] else w # split_ws cs [])
      else split_ws cs (w @ [c]))"

definition py_split :: "string \<Rightarrow> string list" where
  "py_split s = split_ws s []"

text \<open>\<open>sep.join(xs)\<close>.\<close>

fun py_join :: "string \<Rightarrow> string list \<Rightarrow> string" where
  "py_join sep [] = []"
| "py_join sep [x] = x"
| "py_join sep (x # y # ys) = x @ sep @ py_join sep (y # ys)"

text \<open>\<open>s.replace(old, new)\<close>: the occurrences of \<open>old\<close> are replaced from the
  left, without overlap; an empty \<open>old\<close> matches before every character and at
  the end.\<close>

function py_replace :: "string \<Rightarrow> string \<Rightarrow> string \<Rightarrow> string" where
  "py_replace old new s =
     (if old = [] then new @ concat (map (\<lambda>c. c # new) s)
      else if s = [] then []
      else if take (length old) s = old
        then new @ py_replace old new (drop (length old) s)
      else hd s # py_replace old new (tl s))"
  by pat_completeness auto
termination
  by (relation "measure (\<lambda>(old, new, s). length s)") auto

declare py_replace.simps [simp del]

text \<open>\<open>normalize_key(s)\<close> is \<open>(s or "").strip().lower()\<close>.\<close>

definition normalize_key :: "string \<Rightarrow> string" where
  "normalize_key s = py_lower (py_strip s)"

section \<open>Paths and the file system\<close>

text \<open>
  The file system the script reads: the regular files with their contents and the
  directories with their entries. \<open>os.path.isfile\<close> and \<open>os.path.isdir\<close> are
  membership; opening a path that is no file raises \<open>FileNotFoundError\<close>.
\<close>

record filesystem =
  files :: "string \<Rightarrow> string option"
  dirs :: "string \<Rightarrow> string list option"

definition isfile :: "filesystem \<Rightarrow> string \<Rightarrow> bool" where
  "isfile fs p = (files fs p \<noteq> None)"

definition isdir :: "filesystem \<Rightarrow> string \<Rightarrow> bool" where
  "isdir fs p = (dirs fs p \<noteq> None)"

definition listdir :: "filesystem \<Rightarrow> string \<Rightarrow> string list" where
  "listdir fs p = (case dirs fs p of None \<Rightarrow> [] | Some names \<Rightarrow> names)"

text \<open>\<open>os.path.join(a, b)\<close> of posixpath, for two components.\<close>

definition path_join :: "string \<Rightarrow> string \<Rightarrow> string" where
  "path_join a b =
     (if b \<noteq> [] \<and> hd b = CHR ''/'' then b
      else if a = [] \<or> last a = CHR ''/'' then a @ b
      else a @ ''/'' @ b)"

text \<open>\<open>os.path.basename(p)\<close>: what follows the last slash.\<close>

definition basename :: "string \<Rightarrow> string" where
  "basename p = rev (takeWhile (\<lambda>c. c \<noteq> CHR ''/'') (rev p))"

text \<open>
  \<open>os.path.splitext(p)[0]\<close>: the path up to the last dot of its last component,
  unless that component has only dots before this dot (then the whole path).
\<close>

definition splitext_root :: "string \<Rightarrow> string" where
  "splitext_root p =
     (let base = basename p;
          ext = rev (takeWhile (\<lambda>c. c \<noteq> CHR ''.'') (rev base));
          stem = take (length base - length ext - 1) base
      in if CHR ''.'' \<in> set base \<and> (\<exists>c \<in> set stem. c \<noteq> CHR ''.'')
         then take (length p - length ext - 1) p else p)"

section \<open>Attachment selection\<close>

text \<open>\<open>RESUME_MAP\<close> and \<open>COVER_LETTER_MAP\<close>: the tables of \<open>CONFIG\<close>, their
  keys passed through \<open>normalize_key\<close>.\<close>

definition RESUME_MAP :: "string \<Rightarrow> string option" where
  "RESUME_MAP = map_of (map (\<lambda>(k, v). (normalize_key k, v))
     [(''backend developer'', ''resumes/Sahil_Bhanushali-M.pdf''),
      (''frontend developer'', ''resumes/Sahil_bhanushali_Resume.pdf''),
      (''mern stack developer'', ''resumes/fullstack_resume.pdf'')])"

definition COVER_LETTER_MAP :: "string \<Rightarrow> string option" where
  "COVER_LETTER_MAP = map_of (map (\<lambda>(k, v). (normalize_key k, v))
     [(''backend developer'', ''cover_letters/backend_backenddev.pdf''),
      (''frontend developer'', ''cover_letters/frontend_cover.pdf''),
      (''mern stack developer'', ''cover_letters/mern_cover.pdf'')])"

definition default_cover_letter_txt :: string where
  "default_cover_letter_txt = ''cover_letters/default_cover.txt''"

text \<open>Step 1 of \<open>select_resume\<close>: the mapped path, when the key is mapped and the
  file is there.\<close>

definition mapped_resume :: "filesystem \<Rightarrow> string \<Rightarrow> string option" where
  "mapped_resume fs key =
     (case RESUME_MAP key of
        None \<Rightarrow> None
      | Some p \<Rightarrow> if isfile fs p then Some p else None)"

text \<open>The test of the folder scan on one entry name: \<open>key == joined or key == name\<close>.\<close>

definition heuristic_match :: "string \<Rightarrow> string \<Rightarrow> bool" where
  "heuristic_match key fname =
     (let name = py_lower (splitext_root fname);
          wordsl = py_split (py_replace ''_'' '' '' name);
          joined = py_join '' '' wordsl
      in key = joined \<or> key = name)"

text \<open>Step 2: the loop over \<open>os.listdir(resume_folder)\<close>; entries that are no
  regular file are passed over, the first match is returned.\<close>

fun scan_folder :: "filesystem \<Rightarrow> string \<Rightarrow> string \<Rightarrow> string list \<Rightarrow> string option" where
  "scan_folder fs key folder [] = None"
| "scan_folder fs key folder (fname # rest) =
     (let fpath = path_join folder fname
      in if \<not> isfile fs fpath then scan_folder fs key folder rest
         else if heuristic_match key fname then Some fpath
         else scan_folder fs key folder rest)"

definition heuristic_resume :: "filesystem \<Rightarrow> string \<Rightarrow> string \<Rightarrow> string option" where
  "heuristic_resume fs key folder =
     (if isdir fs folder then scan_folder fs key folder (listdir fs folder) else None)"

text \<open>Step 3: \<open>if default_resume and os.path.isfile(default_resume)\<close>.\<close>

definition fallback_resume :: "filesystem \<Rightarrow> string option \<Rightarrow> string option" where
  "fallback_resume fs default_resume =
     (case default_resume of
        None \<Rightarrow> None
      | Some d \<Rightarrow> if d \<noteq> [] \<and> isfile fs d then Some d else None)"

definition select_resume ::
  "filesystem \<Rightarrow> string \<Rightarrow> string \<Rightarrow> string option \<Rightarrow> string option" where
  "select_resume fs job_role resume_folder default_resume =
     (let key = normalize_key job_role in
      case mapped_resume fs key of
        Some p \<Rightarrow> Some p
      | None \<Rightarrow>
         (case heuristic_resume fs key resume_folder of
            Some fpath \<Rightarrow> Some fpath
          | None \<Rightarrow> fallback_resume fs default_resume))"

text \<open>\<open>select_cover_letter\<close>: the mapped file when it is there (and whether its
  name ends in \<open>.pdf\<close>), else the default text file, else nothing.\<close>

definition endswith :: "string \<Rightarrow> string \<Rightarrow> bool" where
  "endswith s suffix = (length suffix \<le> length s \<and> drop (length s - length suffix) s = suffix)"

definition select_cover_letter :: "filesystem \<Rightarrow> string \<Rightarrow> string option \<times> bool" where
  "select_cover_letter fs job_role =
     (let key = normalize_key job_role;
          txt = default_cover_letter_txt
      in case (case COVER_LETTER_MAP key of
                 None \<Rightarrow> None
               | Some p \<Rightarrow> if isfile fs p then Some p else None) of
           Some p \<Rightarrow> (Some p, endswith (py_lower p) ''.pdf'')
         | None \<Rightarrow> if txt \<noteq> [] \<and> isfile fs txt then (Some txt, False) else (None, False))"

section \<open>Email validation\<close>

text \<open>
  \<open>validate_email\<close> of the email-validator package is a parameter: given the
  address and the flag \<open>check_deliverability\<close> it returns the validated
  address, raises \<open>EmailNotValidError\<close> (the class of the package's syntax and
  undeliverable-domain errors alike) or raises some other exception.
\<close>

datatype validate_outcome = Validated string | EmailNotValidError | OtherException

type_synonym validator = "string \<Rightarrow> bool \<Rightarrow> validate_outcome"

definition validate_email_address :: "validator \<Rightarrow> string \<Rightarrow> bool \<times> string option" where
  "validate_email_address validate_email address =
     (if address = [] \<or> py_strip address = [] then (False, None)
      else case validate_email address True of
             Validated e \<Rightarrow> (True, Some e)
           | EmailNotValidError \<Rightarrow> (False, None)
           | OtherException \<Rightarrow>
               (case validate_email address False of
                  Validated e \<Rightarrow> (True, Some e)
                | EmailNotValidError \<Rightarrow> (False, None)
                | OtherException \<Rightarrow> (False, None)))"

section \<open>Message composition\<close>

datatype error = FileNotFoundError | RuntimeError | SMTPException | HttpError | ValueError

text \<open>An \<open>EmailMessage\<close>: the headers, the two bodies, the images related to the
  HTML part (content id, content type, data) and the attachments (file name,
  content type, data).\<close>

record email_message =
  msg_from :: string
  msg_to :: string
  subject :: string
  text_body :: string
  html_body :: string
  related :: "(string \<times> string \<times> string) list"
  attachments :: "(string \<times> string \<times> string) list"

text \<open>\<open>open(path).read()\<close>.\<close>

definition open_read :: "filesystem \<Rightarrow> string \<Rightarrow> error + string" where
  "open_read fs path = (case files fs path of None \<Rightarrow> Inl FileNotFoundError | Some d \<Rightarrow> Inr d)"

definition HTML_TEMPLATES :: "string list" where
  "HTML_TEMPLATES = [''templates/email_template.html'']"

text \<open>\<open>x or d\<close> for an optional string: \<open>None\<close> and the empty string are falsy.\<close>

definition or_default :: "string option \<Rightarrow> string \<Rightarrow> string" where
  "or_default x d = (case x of None \<Rightarrow> d | Some s \<Rightarrow> if s = [] then d else s)"

text \<open>\<open>render_html_template\<close>; \<open>pick\<close> is the draw of \<open>random.choice\<close>.\<close>

definition render_html_template ::
  "filesystem \<Rightarrow> nat \<Rightarrow> string \<Rightarrow> string \<Rightarrow> string option \<Rightarrow> error + string" where
  "render_html_template fs pick job_role company name =
     (let path = HTML_TEMPLATES ! (pick mod length HTML_TEMPLATES) in
      case open_read fs path of
        Inl e \<Rightarrow> Inl e
      | Inr html \<Rightarrow>
          Inr (py_replace ''{{JobRole}}'' (or_default (Some job_role) ''the role'')
                (py_replace ''{{Company}}'' (or_default (Some company) ''your company'')
                  (py_replace ''{{Name}}'' (or_default name ''Hiring Manager'') html))))"

definition inline_images :: "(string \<times> string) list" where
  "inline_images = [(''image1'', ''image1.png''), (''image2'', ''image2.png''),
                    (''image4'', ''image4.png'')]"

text \<open>The loop over the inline images: an image that is no file is passed over
  (with a warning), one that is there is read and added to the HTML part.\<close>

fun add_inline_images ::
  "filesystem \<Rightarrow> (string \<Rightarrow> string option) \<Rightarrow> (string \<times> string) list \<Rightarrow> email_message
     \<Rightarrow> error + email_message" where
  "add_inline_images fs guess [] msg = Inr msg"
| "add_inline_images fs guess ((cid, path) # rest) msg =
     (if isfile fs path then
        (case open_read fs path of
           Inl e \<Rightarrow> Inl e
         | Inr img_data \<Rightarrow>
             (let ctype = (case guess path of None \<Rightarrow> ''image/png'' | Some t \<Rightarrow> t)
              in add_inline_images fs guess rest
                   (msg\<lparr>related := related msg @ [(''<'' @ cid @ ''>'', ctype, img_data)]\<rparr>)))
      else add_inline_images fs guess rest msg)"

text \<open>One \<open>add_attachment\<close> block: read the file, guess its type, attach it under
  its base name.\<close>

definition attach_file ::
  "filesystem \<Rightarrow> (string \<Rightarrow> string option) \<Rightarrow> string \<Rightarrow> email_message \<Rightarrow> error + email_message" where
  "attach_file fs guess path msg =
     (case open_read fs path of
        Inl e \<Rightarrow> Inl e
      | Inr data \<Rightarrow>
          (let ctype = (case guess path of None \<Rightarrow> ''application/octet-stream'' | Some t \<Rightarrow> t)
           in Inr (msg\<lparr>attachments := attachments msg @ [(basename path, ctype, data)]\<rparr>)))"

text \<open>
  \<open>build_email_message\<close>. \<open>guess\<close> is \<open>mimetypes.guess_type\<close>, \<open>pick\<close> the
  draws of \<open>random.choice\<close> (one number serves both draws). \<open>cover_is_pdf\<close> is
  not read by the body.
\<close>

definition build_email_message ::
  "filesystem \<Rightarrow> (string \<Rightarrow> string option) \<Rightarrow> nat \<Rightarrow> string \<Rightarrow> string option \<Rightarrow> string \<Rightarrow> string
     \<Rightarrow> string \<Rightarrow> string option \<Rightarrow> bool \<Rightarrow> string \<Rightarrow> string \<Rightarrow> string \<Rightarrow> error + email_message" where
  "build_email_message fs guess pick to_email to_name job_role company resume_path cover_path
       cover_is_pdf sender_nm sender_em where_fnd =
     (let greeting = (if or_default to_name [] \<noteq> [] then ''Hello '' @ or_default to_name [] @ '',''
                      else [''Hi,'', ''Hello,''] ! (pick mod 2));
          text_b = greeting @ [CHR 0x0A, CHR 0x0A]
            @ ''I'' @ [CHR 0x27] @ ''m reaching out about the '' @ job_role @ '' role at '' @ company
            @ ''. I saw the opening on '' @ where_fnd @ ''. ''
            @ ''I'' @ [CHR 0x27] @ ''ve attached my resume and cover letter.'' @ [CHR 0x0A, CHR 0x0A]
            @ ''Thanks for your time,'' @ [CHR 0x0A] @ sender_nm
      in case render_html_template fs pick job_role company to_name of
           Inl e \<Rightarrow> Inl e
         | Inr html_b \<Rightarrow>
            (let msg = \<lparr>msg_from = sender_nm @ '' <'' @ sender_em @ ''>'',
                        msg_to = to_email,
                        subject = ''Application for '' @ job_role @ '' - '' @ sender_nm,
                        text_body = text_b, html_body = html_b,
                        related = [], attachments = []\<rparr>
             in case add_inline_images fs guess inline_images msg of
                  Inl e \<Rightarrow> Inl e
                | Inr msg1 \<Rightarrow>
                    if \<not> isfile fs resume_path then Inl FileNotFoundError
                    else (case attach_file fs guess resume_path msg1 of
                            Inl e \<Rightarrow> Inl e
                          | Inr msg2 \<Rightarrow>
                              (case cover_path of
                                 None \<Rightarrow> Inr msg2
                               | Some cp \<Rightarrow>
                                   if cp = [] then Inr msg2
                                   else attach_file fs guess cp msg2))))"

section \<open>The table, the environment and the state of a run\<close>

text \<open>
  A row of the data frame with the columns the script reads; a column that the
  sheet lacks reads as the empty string, as \<open>row.get(col, "")\<close> does. Cells are
  strings.
\<close>

record row =
  JobRole :: string
  CompanyName :: string
  Email :: string
  ContactName :: string
  Location :: string
  Status :: string

text \<open>What a run does to the world, in order: a line appended to
  \<open>invalid_emails.log\<close> (time stamp, row index, address), a call of
  \<open>write_dataframe_to_sheet\<close> with a table, a call of \<open>send_email\<close> for a row
  with its attempt number, a call of \<open>time.sleep\<close>.\<close>

datatype event =
    EvInvalid string nat string
  | EvWrite "row list"
  | EvAttempt nat int
  | EvSleep int

text \<open>The entries of \<open>CONFIG\<close> the run reads; \<open>smtp_password\<close> is the value of
  the environment variable that \<open>smtp_password_envvar\<close> names.\<close>

record config =
  resumes_folder :: string
  default_resume :: string
  smtp_username :: string
  smtp_password :: string
  sender_name :: string
  sender_email :: string
  where_found :: string
  max_retries :: int
  retry_delay_seconds :: int

text \<open>
  The world outside the script: the file system, the validator package, the MIME
  type table, the random draws (by row), whether the n-th SMTP session of the run
  succeeds, whether the n-th write to the sheet succeeds, and the clock read for
  the n-th line of the invalid-email log.
\<close>

record environment =
  fsys :: filesystem
  validate_email :: validator
  guess_type :: "string \<Rightarrow> string option"
  random_choice :: "nat \<Rightarrow> nat"
  smtp_ok :: "nat \<Rightarrow> bool"
  write_ok :: "nat \<Rightarrow> bool"
  clock :: "nat \<Rightarrow> string"

text \<open>
  The state of a run: the data frame \<open>df\<close>, \<open>processed_keys\<close>, what happened
  so far, the contents of the remote sheet, the numbers of SMTP sessions and of
  sheet writes so far, and the exception that left \<open>process_sheet_and_send\<close>, if
  one did.
\<close>

record state =
  df :: "row list"
  processed_keys :: "(string \<times> string \<times> string) set"
  events :: "event list"
  sheet :: "row list"
  smtp_calls :: nat
  writes :: nat
  raised :: "error option"

section \<open>Sheet store and mail transport\<close>

text \<open>\<open>write_dataframe_to_sheet\<close>: the whole table replaces the sheet, or the
  call raises and the sheet stays as it was.\<close>

definition write_dataframe_to_sheet :: "environment \<Rightarrow> row list \<Rightarrow> state \<Rightarrow> error option \<times> state" where
  "write_dataframe_to_sheet env tbl st =
     (let st1 = st\<lparr>events := events st @ [EvWrite tbl], writes := writes st + 1\<rparr>
      in if write_ok env (writes st) then (None, st1\<lparr>sheet := tbl\<rparr>)
         else (Some HttpError, st1))"

text \<open>\<open>send_email\<close>: empty credentials raise before any connection; otherwise one
  SMTP session is opened and the message is accepted or an error is raised.\<close>

definition send_email :: "environment \<Rightarrow> config \<Rightarrow> email_message \<Rightarrow> state \<Rightarrow> error option \<times> state" where
  "send_email env cfg message st =
     (if smtp_username cfg = [] then (Some RuntimeError, st)
      else if smtp_password cfg = [] then (Some RuntimeError, st)
      else let st1 = st\<lparr>smtp_calls := smtp_calls st + 1\<rparr>
           in if smtp_ok env (smtp_calls st) then (None, st1) else (Some SMTPException, st1))"

section \<open>The orchestrator\<close>

subsection \<open>Validation of the addresses\<close>





subsection \<open>One row\<close>

text \<open>\<open>df.at[idx, "Status"] = s\<close>.\<close>

definition set_status :: "nat \<Rightarrow> string \<Rightarrow> state \<Rightarrow> state" where
  "set_status idx s st = st\<lparr>df := (df st)[idx := (df st ! idx)\<lparr>Status := s\<rparr>]\<rparr>"

text \<open>The two tests on the trimmed status that pass a row over.\<close>

definition already_sent :: "row \<Rightarrow> bool" where
  "already_sent r = (py_upper (py_strip (Status r)) = ''SENT'')"

definition other_status :: "row \<Rightarrow> bool" where
  "other_status r =
     (py_strip (Status r) \<noteq> [] \<and>
      py_upper (py_strip (Status r)) \<notin> set [[], ''PENDING'', ''TO_SEND''])"

definition eligible :: "row \<Rightarrow> bool" where
  "eligible r = (\<not> already_sent r \<and> \<not> other_status r)"

text \<open>\<open>key = (email.lower(), job.lower(), company.lower())\<close> of the trimmed cells.\<close>

definition dedup_key :: "row \<Rightarrow> string \<times> string \<times> string" where
  "dedup_key r = (py_lower (py_strip (Email r)), py_lower (py_strip (JobRole r)),
                  py_lower (py_strip (CompanyName r)))"

text \<open>
  The retry loop: \<open>while attempt < max_retries and not sent\<close>. A failed attempt
  that is not the last one sleeps; \<open>time.sleep\<close> raises \<open>ValueError\<close> on a
  negative delay, and that exception leaves the run.
\<close>

function send_loop ::
  "environment \<Rightarrow> config \<Rightarrow> nat \<Rightarrow> email_message \<Rightarrow> int \<Rightarrow> bool \<Rightarrow> state \<Rightarrow> bool \<times> state" where
  "send_loop env cfg idx msg attempt sent st =
     (if attempt < max_retries cfg \<and> \<not> sent then
        (let st1 = st\<lparr>events := events st @ [EvAttempt idx (attempt + 1)]\<rparr>;
             res = send_email env cfg msg st1
         in if fst res = None then send_loop env cfg idx msg (attempt + 1) True (snd res)
            else if attempt + 1 < max_retries cfg then
              (if retry_delay_seconds cfg < 0 then (False, (snd res)\<lparr>raised := Some ValueError\<rparr>)
               else send_loop env cfg idx msg (attempt + 1) False
                      ((snd res)\<lparr>events := events (snd res) @ [EvSleep (retry_delay_seconds cfg)]\<rparr>))
            else send_loop env cfg idx msg (attempt + 1) False (snd res))
      else (sent, st))"
  by pat_completeness auto
termination
  by (relation "measure (\<lambda>(env, cfg, idx, msg, attempt, sent, st). nat (max_retries cfg - attempt))")
     auto

declare send_loop.simps [simp del]

text \<open>The send with retries and the status it leaves: \<open>SENT\<close> or \<open>FAILED\<close>.\<close>

definition send_with_retries :: "environment \<Rightarrow> config \<Rightarrow> nat \<Rightarrow> email_message \<Rightarrow> state \<Rightarrow> state" where
  "send_with_retries env cfg idx msg st =
     (let (sent, st1) = send_loop env cfg idx msg 0 False st
      in if raised st1 \<noteq> None then st1
         else if sent then set_status idx ''SENT'' st1
         else set_status idx ''FAILED'' st1)"

text \<open>The write after the send, inside \<open>try\<close>: a failure is logged and dropped.\<close>

definition persist_after_send :: "environment \<Rightarrow> state \<Rightarrow> state" where
  "persist_after_send env st = snd (write_dataframe_to_sheet env (df st) st)"

text \<open>The write of the two early outcomes, outside any \<open>try\<close>: a failure leaves
  the run, before the key is recorded.\<close>

definition persist_and_record :: "environment \<Rightarrow> string \<times> string \<times> string \<Rightarrow> state \<Rightarrow> state" where
  "persist_and_record env key st =
     (case write_dataframe_to_sheet env (df st) st of
        (None, st1) \<Rightarrow> st1\<lparr>processed_keys := insert key (processed_keys st1)\<rparr>
      | (Some e, st1) \<Rightarrow> st1\<lparr>raised := Some e\<rparr>)"

text \<open>The end of the body for a row whose message is built: the send with
  retries, the write, and the key recorded. An exception of the retry loop leaves
  the run before the write.\<close>

definition send_and_persist ::
  "environment \<Rightarrow> config \<Rightarrow> nat \<Rightarrow> string \<times> string \<times> string \<Rightarrow> email_message \<Rightarrow> state \<Rightarrow> state" where
  "send_and_persist env cfg idx key msg st =
     (let st1 = send_with_retries env cfg idx msg st in
      if raised st1 \<noteq> None then st1
      else (let st2 = persist_after_send env st1
            in st2\<lparr>processed_keys := insert key (processed_keys st2)\<rparr>))"

text \<open>The body of the loop \<open>for idx in range(len(df))\<close>.\<close>

definition process_row :: "environment \<Rightarrow> config \<Rightarrow> nat \<Rightarrow> state \<Rightarrow> state" where
  "process_row env cfg idx st =
     (let r = df st ! idx;
          job = py_strip (JobRole r);
          company = py_strip (CompanyName r);
          contact = py_strip (ContactName r);
          email = py_strip (Email r);
          status = py_strip (Status r)
      in if py_upper status = ''SENT'' then st
         else if status \<noteq> [] \<and> py_upper status \<notin> set [[], ''PENDING'', ''TO_SEND''] then st
         else
          (let key = (py_lower email, py_lower job, py_lower company) in
           if key \<in> processed_keys st then set_status idx ''SKIPPED_DUPLICATE'' st
           else
            (case select_resume (fsys env) job (resumes_folder cfg) (Some (default_resume cfg)) of
               None \<Rightarrow> persist_and_record env key (set_status idx ''SKIPPED_NO_RESUME'' st)
             | Some resume_path \<Rightarrow>
                if resume_path = [] then
                  persist_and_record env key (set_status idx ''SKIPPED_NO_RESUME'' st)
                else
                 (let (cover_path, cover_is_pdf) = select_cover_letter (fsys env) job in
                  case build_email_message (fsys env) (guess_type env) (random_choice env idx)
                         email (if contact \<noteq> [] then Some contact else None) job company
                         resume_path cover_path cover_is_pdf (sender_name cfg)
                         (if sender_email cfg \<noteq> [] then sender_email cfg else smtp_username cfg)
                         (where_found cfg) of
                    Inl e \<Rightarrow> persist_and_record env key (set_status idx ''FAILED_BUILD_MESSAGE'' st)
                  | Inr msg \<Rightarrow> send_and_persist env cfg idx key msg st))))"

subsection \<open>The run\<close>

text \<open>The loop over the row indices; an exception that leaves a row's body ends
  the run.\<close>

fun run_rows :: "environment \<Rightarrow> config \<Rightarrow> nat list \<Rightarrow> state \<Rightarrow> state" where
  "run_rows env cfg [] st = st"
| "run_rows env cfg (idx # rest) st =
     (let st1 = process_row env cfg idx st
      in if raised st1 \<noteq> None then st1 else run_rows env cfg rest st1)"

definition send_phase :: "environment \<Rightarrow> config \<Rightarrow> state \<Rightarrow> state" where
  "send_phase env cfg st = run_rows env cfg [0..<length (df st)] (st\<lparr>processed_keys := {}\<rparr>)"

definition initial_state :: "row list \<Rightarrow> state" where
  "initial_state tbl = \<lparr>df = tbl, processed_keys = {}, events = [], sheet = tbl,
                         smtp_calls = 0, writes = 0, raised = None\<rparr>"


section \<open>Notions used in the statements\<close>

text \<open>Whether the attempt number \<open>k\<close> (counted from 0) of a retry loop that starts
  in state \<open>st\<close> succeeds: the credentials are set and the SMTP session it opens,
  the \<open>k\<close>-th after those before, goes through.\<close>

definition attempt_succeeds :: "environment \<Rightarrow> config \<Rightarrow> state \<Rightarrow> nat \<Rightarrow> bool" where
  "attempt_succeeds env cfg st k =
     (smtp_username cfg \<noteq> [] \<and> smtp_password cfg \<noteq> [] \<and> smtp_ok env (smtp_calls st + k))"

text \<open>The number of failures before the first success among the attempts
  \<open>0, ..., m - 1\<close> (it is \<open>m\<close> when all of them fail).\<close>

definition failures_before :: "(nat \<Rightarrow> bool) \<Rightarrow> nat \<Rightarrow> nat" where
  "failures_before ok m = length (takeWhile (\<lambda>j. \<not> ok j) [0..<m])"

text \<open>The number of attempts of a loop bounded by \<open>m\<close> that stops at the first
  success.\<close>

definition attempts_made :: "(nat \<Rightarrow> bool) \<Rightarrow> nat \<Rightarrow> nat" where
  "attempts_made ok m = min m (Suc (failures_before ok m))"

text \<open>What a retry loop with \<open>made\<close> attempts does after \<open>a\<close> earlier ones: the
  attempts in order, one sleep between two consecutive attempts.\<close>

definition retry_trace :: "nat \<Rightarrow> int \<Rightarrow> int \<Rightarrow> nat \<Rightarrow> event list" where
  "retry_trace idx delay a made =
     concat (map (\<lambda>k. [EvAttempt idx (a + int k + 1), EvSleep delay]) [0..<made - 1])
     @ (if made = 0 then [] else [EvAttempt idx (a + int made)])"

definition is_attempt :: "event \<Rightarrow> bool" where
  "is_attempt ev = (case ev of EvAttempt i k \<Rightarrow> True | _ \<Rightarrow> False)"

definition is_sleep :: "event \<Rightarrow> bool" where
  "is_sleep ev = (case ev of EvSleep d \<Rightarrow> True | _ \<Rightarrow> False)"

definition is_write :: "event \<Rightarrow> bool" where
  "is_write ev = (case ev of EvWrite t \<Rightarrow> True | _ \<Rightarrow> False)"

text \<open>The attempts made for the row \<open>idx\<close>.\<close>

definition attempts_for :: "nat \<Rightarrow> event list \<Rightarrow> event list" where
  "attempts_for idx evs = filter (\<lambda>ev. case ev of EvAttempt i k \<Rightarrow> i = idx | _ \<Rightarrow> False) evs"

text \<open>An event of the retry loop of the row \<open>idx\<close>: an attempt for that row or a
  sleep.\<close>

definition sending_event :: "nat \<Rightarrow> event \<Rightarrow> bool" where
  "sending_event idx ev = (case ev of EvAttempt i k \<Rightarrow> i = idx | EvSleep d \<Rightarrow> True | _ \<Rightarrow> False)"

text \<open>What the retry loop of a row leaves alone: the table, the keys, the sheet and
  the count of writes; it only adds events of its own.\<close>

definition send_frame :: "nat \<Rightarrow> state \<Rightarrow> state \<Rightarrow> bool" where
  "send_frame idx st st' =
     (df st' = df st \<and> processed_keys st' = processed_keys st \<and> sheet st' = sheet st
      \<and> writes st' = writes st
      \<and> (\<exists>evs. events st' = events st @ evs \<and> list_all (sending_event idx) evs))"

text \<open>The statuses that the loop gives to a row it handles.\<close>

definition outcome_statuses :: "string list" where
  "outcome_statuses = [''SENT'', ''FAILED'', ''SKIPPED_DUPLICATE'', ''SKIPPED_NO_RESUME'',
                       ''FAILED_BUILD_MESSAGE'']"

text \<open>What the body of the loop may do for the row \<open>idx\<close>: set the status of
  that row, record the key of that row, and add events: attempts for that row,
  sleeps and writes.\<close>

definition row_frame :: "nat \<Rightarrow> state \<Rightarrow> state \<Rightarrow> bool" where
  "row_frame idx st st' =
     ((\<exists>s. df st' = (df st)[idx := (df st ! idx)\<lparr>Status := s\<rparr>])
      \<and> (processed_keys st' = processed_keys st
          \<or> eligible (df st ! idx)
            \<and> processed_keys st' = insert (dedup_key (df st ! idx)) (processed_keys st))
      \<and> (\<exists>evs. events st' = events st @ evs
            \<and> list_all (\<lambda>ev. sending_event idx ev \<or> is_write ev) evs))"

text \<open>The state in which the loop of the send phase, started in \<open>st\<close>, gets to
  the row \<open>j\<close>, and whether it gets there: no exception has left it before.\<close>

definition state_at :: "environment \<Rightarrow> config \<Rightarrow> state \<Rightarrow> nat \<Rightarrow> state" where
  "state_at env cfg st j = run_rows env cfg [0..<j] (st\<lparr>processed_keys := {}\<rparr>)"

definition reaches :: "environment \<Rightarrow> config \<Rightarrow> state \<Rightarrow> nat \<Rightarrow> bool" where
  "reaches env cfg st j = (raised (state_at env cfg st j) = None)"

text \<open>The resume the body of the loop selects for a row, and the message it builds
  for the row \<open>idx\<close> with a resume.\<close>

definition row_resume :: "environment \<Rightarrow> config \<Rightarrow> row \<Rightarrow> string option" where
  "row_resume env cfg r =
     select_resume (fsys env) (py_strip (JobRole r)) (resumes_folder cfg) (Some (default_resume cfg))"

definition row_message :: "environment \<Rightarrow> config \<Rightarrow> nat \<Rightarrow> row \<Rightarrow> string \<Rightarrow> error + email_message" where
  "row_message env cfg idx r resume_path =
     build_email_message (fsys env) (guess_type env) (random_choice env idx)
       (py_strip (Email r))
       (if py_strip (ContactName r) \<noteq> [] then Some (py_strip (ContactName r)) else None)
       (py_strip (JobRole r)) (py_strip (CompanyName r)) resume_path
       (fst (select_cover_letter (fsys env) (py_strip (JobRole r))))
       (snd (select_cover_letter (fsys env) (py_strip (JobRole r))))
       (sender_name cfg)
       (if sender_email cfg \<noteq> [] then sender_email cfg else smtp_username cfg)
       (where_found cfg)"

section \<open>Concrete inputs\<close>

text \<open>The inputs at which the theorems below are instantiated and the claims are
  evaluated.\<close>


definition fs_resumes :: filesystem where
  "fs_resumes =
     \<lparr>files = [''resumes/ml_engineer.pdf'' \<mapsto> ''ML'', ''resumes/Data_Analyst.pdf'' \<mapsto> ''DA'',
               ''resumes/qa__tester.pdf'' \<mapsto> ''QA'', ''resumes/default.pdf'' \<mapsto> ''DEFAULT'',
               ''resumes/Sahil_Bhanushali-M.pdf'' \<mapsto> ''BACKEND'',
               ''templates/email_template.html'' \<mapsto> ''<p>Dear {{Name}}, {{JobRole}} at {{Company}}</p>''],
      dirs = [''resumes'' \<mapsto> [''archive'', ''ml_engineer.pdf'', ''Data_Analyst.pdf'', ''qa__tester.pdf'',
                                 ''default.pdf'', ''Sahil_Bhanushali-M.pdf'']]\<rparr>"

text \<open>A validator for an address whose domain does not resolve: the check with
  deliverability raises \<open>EmailNotValidError\<close> (the package's
  \<open>EmailUndeliverableError\<close> is a subclass), the check of the syntax alone
  returns the address.\<close>

definition undeliverable_validator :: validator where
  "undeliverable_validator address check_deliverability =
     (if check_deliverability then EmailNotValidError else Validated address)"

text \<open>A validator whose deliverability check breaks down with an error of another
  class, while the syntax check works.\<close>

definition offline_validator :: validator where
  "offline_validator address check_deliverability =
     (if check_deliverability then OtherException
      else if CHR ''@'' \<in> set address then Validated address else EmailNotValidError)"

text \<open>A file system with the template and a resume, and one with the template only.\<close>

definition fs_with_resume :: filesystem where
  "fs_with_resume =
     \<lparr>files = [''templates/email_template.html'' \<mapsto> ''<p>Dear {{Name}}</p>'',
               ''resumes/cv.pdf'' \<mapsto> ''CV'', ''image1.png'' \<mapsto> ''PNG'',
               ''cover_letters/default_cover.txt'' \<mapsto> ''COVER''],
      dirs = [''resumes'' \<mapsto> [''cv.pdf'']]\<rparr>"


definition guess_by_suffix :: "string \<Rightarrow> string option" where
  "guess_by_suffix path =
     (if endswith path ''.pdf'' then Some ''application/pdf''
      else if endswith path ''.png'' then Some ''image/png''
      else if endswith path ''.txt'' then Some ''text/plain''
      else None)"

text \<open>A row, a message, two configurations and three transports.\<close>

definition row_one :: row where
  "row_one = \<lparr>JobRole = ''Chef'', CompanyName = ''Acme'', Email = ''a@b.co'',
              ContactName = [], Location = [], Status = []\<rparr>"

definition msg_one :: email_message where
  "msg_one = \<lparr>msg_from = ''S B <me@x.org>'', msg_to = ''a@b.co'',
              subject = ''Application for Chef - S B'', text_body = ''Hi,'',
              html_body = ''<p>Hi</p>'', related = [],
              attachments = [(''cv.pdf'', ''application/pdf'', ''CV'')]\<rparr>"

definition cfg_three :: config where
  "cfg_three = \<lparr>resumes_folder = ''resumes'', default_resume = ''resumes/cv.pdf'',
                smtp_username = ''me@x.org'', smtp_password = ''secret'',
                sender_name = ''S B'', sender_email = ''me@x.org'',
                where_found = ''LinkedIn'', max_retries = 3, retry_delay_seconds = 30\<rparr>"

definition cfg_two :: config where
  "cfg_two = cfg_three\<lparr>max_retries := 2\<rparr>"

definition env_up :: environment where
  "env_up = \<lparr>fsys = fs_with_resume, validate_email = offline_validator,
             guess_type = guess_by_suffix, random_choice = (\<lambda>i. 0),
             smtp_ok = (\<lambda>n. True), write_ok = (\<lambda>n. True), clock = (\<lambda>n. ''2024-01-01 00:00:00'')\<rparr>"

definition env_flaky :: environment where
  "env_flaky = env_up\<lparr>smtp_ok := (\<lambda>n. 2 \<le> n)\<rparr>"

definition env_down :: environment where
  "env_down = env_up\<lparr>smtp_ok := (\<lambda>n. False)\<rparr>"






section \<open>Attachment selection: the order of resolution\<close>

lemma scan_folder_isfile:
  "scan_folder fs key folder names = Some p \<Longrightarrow> isfile fs p"
  by (induction names) (auto simp: Let_def split: if_splits)






text \<open>
  C9: every path that \<open>select_resume\<close> returns is a regular file of the file system at
  the time of the call: the mapped path and the default are returned only after
  \<open>isfile\<close> holds of them, and the folder scan passes over every entry that is no
  regular file.
\<close>

theorem select_resume_exists:
  "select_resume fs job_role folder dflt = Some p \<Longrightarrow> isfile fs p"
  by (auto simp: select_resume_def mapped_resume_def heuristic_resume_def fallback_resume_def
      Let_def dest: scan_folder_isfile split: option.splits if_splits)

theorem select_resume_exists_witness:
  "select_resume fs_resumes ''QA Tester'' ''resumes'' None = Some ''resumes/qa__tester.pdf''
   \<and> isfile fs_resumes ''resumes/qa__tester.pdf''"
proof -
  have s: "select_resume fs_resumes ''QA Tester'' ''resumes'' None = Some ''resumes/qa__tester.pdf''"
    by code_simp
  from s select_resume_exists [OF s] show ?thesis by simp
qed

section \<open>Email validation\<close>

text \<open>
  C2, as the claim states it, fails: an address whose syntax is valid, so that the
  syntax-only check returns it, is rejected when the check with deliverability raises
  \<open>EmailNotValidError\<close>. The handler of that class returns \<open>(False, None)\<close>
  at once, and the syntax-only check is never tried.
\<close>

theorem validate_email_address_counterexample:
  "undeliverable_validator ''someone@no-such-domain-qzx.com'' False
     = Validated ''someone@no-such-domain-qzx.com''
   \<and> validate_email_address undeliverable_validator ''someone@no-such-domain-qzx.com'' = (False, None)"
  by code_simp

text \<open>
  C2, amended: for an address that is not blank, \<open>validate_email_address\<close> returns
  \<open>(True, normalized)\<close> when the check with deliverability succeeds, and when that
  check ends in an exception of a class other than \<open>EmailNotValidError\<close> and the
  syntax-only check succeeds. It returns \<open>(False, None)\<close> whenever the check with
  deliverability raises \<open>EmailNotValidError\<close> (whatever the syntax-only check would
  say), for a blank address, and when the check with deliverability ends in another
  exception and the syntax-only check fails too.
\<close>

theorem validate_email_address_cases:
  "(py_strip address \<noteq> [] \<and> ve address True = Validated n
      \<longrightarrow> validate_email_address ve address = (True, Some n))
   \<and> (py_strip address \<noteq> [] \<and> ve address True = OtherException \<and> ve address False = Validated n
      \<longrightarrow> validate_email_address ve address = (True, Some n))
   \<and> (ve address True = EmailNotValidError \<longrightarrow> validate_email_address ve address = (False, None))
   \<and> (py_strip address = [] \<longrightarrow> validate_email_address ve address = (False, None))
   \<and> (ve address True = OtherException \<and> (\<forall>m. ve address False \<noteq> Validated m)
      \<longrightarrow> validate_email_address ve address = (False, None))"
proof -
  have blank: "address = [] \<Longrightarrow> py_strip address = []"
    by (simp add: py_strip_def)
  show ?thesis
    using blank
    by (auto simp: validate_email_address_def split: validate_outcome.splits)
qed

theorem validate_email_address_cases_witness:
  "validate_email_address offline_validator ''a@b.co'' = (True, Some ''a@b.co'')
   \<and> validate_email_address offline_validator ''  '' = (False, None)
   \<and> validate_email_address offline_validator ''nobody'' = (False, None)
   \<and> validate_email_address undeliverable_validator ''a@b.co'' = (False, None)"
proof -
  have h1: "py_strip ''a@b.co'' \<noteq> [] \<and> offline_validator ''a@b.co'' True = OtherException
      \<and> offline_validator ''a@b.co'' False = Validated ''a@b.co''"
    by code_simp
  have h2: "py_strip ''  '' = []" by code_simp
  have h3: "offline_validator ''nobody'' True = OtherException
      \<and> (\<forall>m. offline_validator ''nobody'' False \<noteq> Validated m)"
    by (simp add: offline_validator_def)
  have h4: "undeliverable_validator ''a@b.co'' True = EmailNotValidError"
    by (simp add: undeliverable_validator_def)
  from h1 h2 h3 h4
    validate_email_address_cases [of "''a@b.co''" offline_validator "''a@b.co''"]
    validate_email_address_cases [of "''  ''" offline_validator]
    validate_email_address_cases [of "''nobody''" offline_validator]
    validate_email_address_cases [of "''a@b.co''" undeliverable_validator]
  show ?thesis by simp
qed

section \<open>Message composition\<close>




lemma add_inline_images_attachments:
  "add_inline_images fs guess imgs msg = Inr msg' \<Longrightarrow> attachments msg' = attachments msg"
  by (induction fs guess imgs msg arbitrary: msg' rule: add_inline_images.induct)
     (auto simp: Let_def split: sum.splits if_splits)




section \<open>The retry loop\<close>

lemma failures_before_0 [simp]: "failures_before ok 0 = 0"
  by (simp add: failures_before_def)

lemma upt_Suc_shift: "[0..<Suc m] = 0 # map Suc [0..<m]"
  by (simp add: upt_conv_Cons map_Suc_upt del: upt_Suc)

lemma failures_before_Suc:
  "failures_before ok (Suc m) = (if ok 0 then 0 else Suc (failures_before (\<lambda>j. ok (Suc j)) m))"
  unfolding failures_before_def upt_Suc_shift
  by (simp add: takeWhile_map comp_def)

lemma failures_before_le: "failures_before ok m \<le> m"
  unfolding failures_before_def
  by (metis length_takeWhile_le length_upt diff_zero)

lemma retry_trace_0 [simp]: "retry_trace idx d a 0 = []"
  by (simp add: retry_trace_def)

lemma retry_trace_1 [simp]: "retry_trace idx d a (Suc 0) = [EvAttempt idx (a + 1)]"
  by (simp add: retry_trace_def)

lemma retry_trace_Suc_Suc:
  "retry_trace idx d a (Suc (Suc k)) = EvAttempt idx (a + 1) # EvSleep d # retry_trace idx d (a + 1) (Suc k)"
proof -
  have "[0..<Suc k] = 0 # map Suc [0..<k]" by (rule upt_Suc_shift)
  then show ?thesis
    by (simp add: retry_trace_def comp_def add.assoc add.commute del: upt_Suc)
qed

lemma send_loop_sent: "send_loop env cfg idx msg a True st = (True, st)"
  by (simp add: send_loop.simps)

lemma send_loop_done: "\<not> a < max_retries cfg \<Longrightarrow> send_loop env cfg idx msg a s st = (s, st)"
  by (simp add: send_loop.simps)

lemma send_loop_closed:
  assumes "0 \<le> retry_delay_seconds cfg"
  shows "m = nat (max_retries cfg - a) \<Longrightarrow>
     send_loop env cfg idx msg a False st =
       (failures_before (attempt_succeeds env cfg st) m < m,
        st\<lparr>events := events st @ retry_trace idx (retry_delay_seconds cfg) a
                        (attempts_made (attempt_succeeds env cfg st) m),
           smtp_calls := smtp_calls st +
              (if smtp_username cfg \<noteq> [] \<and> smtp_password cfg \<noteq> []
               then attempts_made (attempt_succeeds env cfg st) m else 0)\<rparr>)"
proof (induction m arbitrary: a st)
  case 0
  then have "\<not> a < max_retries cfg" by simp
  then show ?case
    by (simp add: send_loop_done attempts_made_def)
next
  case (Suc m)
  then have lt: "a < max_retries cfg" and m: "m = nat (max_retries cfg - (a + 1))"
    by simp_all
  let ?ok = "attempt_succeeds env cfg st"
  let ?d = "retry_delay_seconds cfg"
  let ?st1 = "st\<lparr>events := events st @ [EvAttempt idx (a + 1)]\<rparr>"
  show ?case
  proof (cases "?ok 0")
    case True
    then have "send_email env cfg msg ?st1 = (None, ?st1\<lparr>smtp_calls := smtp_calls st + 1\<rparr>)"
      by (simp add: send_email_def attempt_succeeds_def)
    moreover from True have "smtp_username cfg \<noteq> [] \<and> smtp_password cfg \<noteq> []"
      by (simp add: attempt_succeeds_def)
    ultimately show ?thesis
      using True lt
      by (subst send_loop.simps)
         (simp add: send_loop_sent failures_before_Suc attempts_made_def Let_def)
  next
    case False
    define c :: nat where "c = (if smtp_username cfg \<noteq> [] \<and> smtp_password cfg \<noteq> [] then 1 else 0)"
    let ?st2 = "?st1\<lparr>smtp_calls := smtp_calls st + c\<rparr>"
    from False have "\<exists>e. send_email env cfg msg ?st1 = (Some e, ?st2)"
      by (auto simp: send_email_def attempt_succeeds_def c_def Let_def)
    then obtain e where se: "send_email env cfg msg ?st1 = (Some e, ?st2)" ..
    have shift: "attempt_succeeds env cfg (?st2\<lparr>events := evs\<rparr>) = (\<lambda>j. ?ok (Suc j))" for evs
      by (auto simp: attempt_succeeds_def c_def fun_eq_iff)
    show ?thesis
    proof (cases m)
      case 0
      with m have nlt: "\<not> a + 1 < max_retries cfg" by simp
      from 0 False se lt nlt show ?thesis
        by (subst send_loop.simps)
           (simp add: send_loop_done failures_before_Suc attempts_made_def c_def Let_def)
    next
      case (Suc k)
      with m have lt2: "a + 1 < max_retries cfg" by simp
      let ?st3 = "?st2\<lparr>events := events ?st2 @ [EvSleep ?d]\<rparr>"
      have step: "send_loop env cfg idx msg a False st = send_loop env cfg idx msg (a + 1) False ?st3"
        using se lt lt2 assms by (subst send_loop.simps) (simp add: Let_def)
      have fb: "failures_before ?ok (Suc m) = Suc (failures_before (\<lambda>j. ?ok (Suc j)) m)"
        using False by (simp add: failures_before_Suc)
      obtain q where q: "attempts_made (\<lambda>j. ?ok (Suc j)) m = Suc q"
        using Suc by (cases "attempts_made (\<lambda>j. ?ok (Suc j)) m") (auto simp: attempts_made_def)
      have am: "attempts_made ?ok (Suc m) = Suc (Suc q)"
        using q fb by (simp add: attempts_made_def)
      show ?thesis
        unfolding step Suc.IH [OF m, of ?st3] shift fb am q
        by (simp add: retry_trace_Suc_Suc c_def)
    qed
  qed
qed


lemma failures_before_all: "k < failures_before ok m \<Longrightarrow> \<not> ok k"
proof -
  assume k: "k < failures_before ok m"
  let ?tw = "takeWhile (\<lambda>j. \<not> ok j) [0..<m]"
  from k have kl: "k < length ?tw" by (simp add: failures_before_def)
  then have "?tw ! k \<in> set ?tw" by (rule nth_mem)
  then have "\<not> ok (?tw ! k)" by (rule set_takeWhileD [THEN conjunct2])
  moreover have "?tw ! k = [0..<m] ! k" using kl by (rule takeWhile_nth)
  moreover have "k < m" using kl failures_before_le [of ok m] by (simp add: failures_before_def)
  ultimately show ?thesis by simp
qed

lemma failures_before_hit: "failures_before ok m < m \<Longrightarrow> ok (failures_before ok m)"
proof -
  assume lt: "failures_before ok m < m"
  let ?P = "\<lambda>j. \<not> ok j"
  from lt have "length (takeWhile ?P [0..<m]) < length [0..<m]"
    by (simp add: failures_before_def)
  then have "\<not> ?P ([0..<m] ! length (takeWhile ?P [0..<m]))"
    by (rule nth_length_takeWhile)
  with lt show ?thesis by (simp add: failures_before_def)
qed

lemma failures_before_lt_iff: "failures_before ok m < m \<longleftrightarrow> (\<exists>k<m. ok k)"
proof
  assume "failures_before ok m < m"
  then show "\<exists>k<m. ok k" using failures_before_hit by blast
next
  assume "\<exists>k<m. ok k"
  then obtain k where k: "k < m" "ok k" by blast
  show "failures_before ok m < m"
  proof (rule ccontr)
    assume "\<not> failures_before ok m < m"
    with k have "k < failures_before ok m" by simp
    with k failures_before_all show False by blast
  qed
qed

lemma attempts_made_le: "attempts_made ok m \<le> m"
  by (simp add: attempts_made_def)

lemma attempts_made_first: "Suc k < attempts_made ok m \<Longrightarrow> \<not> ok k"
  by (rule failures_before_all [of k ok m]) (simp add: attempts_made_def)

lemma attempts_made_success_iff: "(\<exists>k < attempts_made ok m. ok k) \<longleftrightarrow> (\<exists>k<m. ok k)"
proof
  assume "\<exists>k < attempts_made ok m. ok k"
  then show "\<exists>k<m. ok k" using attempts_made_le [of ok m] by (meson less_le_trans)
next
  assume "\<exists>k<m. ok k"
  then have lt: "failures_before ok m < m" by (simp add: failures_before_lt_iff)
  then have "ok (failures_before ok m)" by (rule failures_before_hit)
  moreover from lt have "failures_before ok m < attempts_made ok m"
    by (simp add: attempts_made_def)
  ultimately show "\<exists>k < attempts_made ok m. ok k" by blast
qed

lemma attempts_made_all_failed: "\<forall>k<m. \<not> ok k \<Longrightarrow> attempts_made ok m = m"
proof -
  assume "\<forall>k<m. \<not> ok k"
  then have "\<not> failures_before ok m < m" by (simp add: failures_before_lt_iff)
  then show ?thesis by (simp add: attempts_made_def)
qed

lemma retry_trace_counts:
  "length (filter is_attempt (retry_trace idx d a made)) = made
   \<and> length (filter is_sleep (retry_trace idx d a made)) = made - 1"
proof (induction made arbitrary: a)
  case 0
  show ?case by simp
next
  case (Suc n)
  show ?case
  proof (cases n)
    case 0
    then show ?thesis by (simp add: is_attempt_def is_sleep_def)
  next
    case (Suc k)
    with Suc.IH [of "a + 1"] show ?thesis
      by (simp add: retry_trace_Suc_Suc is_attempt_def is_sleep_def)
  qed
qed

lemma set_status_Status:
  "idx < length (df st) \<Longrightarrow> Status (df (set_status idx s st) ! idx) = s"
  by (simp add: set_status_def)

text \<open>
  C1: the send loop of a row, with a delay that is not negative. It makes at most
  \<open>max_retries\<close> attempts (none when \<open>max_retries\<close> is not positive) and stops at
  the first success: every attempt but the last one made has failed. The row's status
  becomes \<open>SENT\<close> exactly when an attempt that was made succeeded, and \<open>FAILED\<close>
  exactly when all \<open>max_retries\<close> attempts were made and failed. The loop does
  nothing but attempts and sleeps, one sleep of the configured delay after each
  attempt that is followed by another, so one less than there are attempts (none
  after the last).
\<close>

theorem send_with_retries_outcome:
  assumes "0 \<le> retry_delay_seconds cfg" and "idx < length (df st)" and "raised st = None"
  shows "events (send_with_retries env cfg idx msg st)
           = events st @ retry_trace idx (retry_delay_seconds cfg) 0
               (attempts_made (attempt_succeeds env cfg st) (nat (max_retries cfg)))
     \<and> length (filter is_attempt (retry_trace idx (retry_delay_seconds cfg) 0
               (attempts_made (attempt_succeeds env cfg st) (nat (max_retries cfg)))))
         = attempts_made (attempt_succeeds env cfg st) (nat (max_retries cfg))
     \<and> length (filter is_sleep (retry_trace idx (retry_delay_seconds cfg) 0
               (attempts_made (attempt_succeeds env cfg st) (nat (max_retries cfg)))))
         = attempts_made (attempt_succeeds env cfg st) (nat (max_retries cfg)) - 1
     \<and> attempts_made (attempt_succeeds env cfg st) (nat (max_retries cfg)) \<le> nat (max_retries cfg)
     \<and> (\<forall>k. Suc k < attempts_made (attempt_succeeds env cfg st) (nat (max_retries cfg))
            \<longrightarrow> \<not> attempt_succeeds env cfg st k)
     \<and> (Status (df (send_with_retries env cfg idx msg st) ! idx) = ''SENT''
          \<longleftrightarrow> (\<exists>k < attempts_made (attempt_succeeds env cfg st) (nat (max_retries cfg)).
                 attempt_succeeds env cfg st k))
     \<and> (Status (df (send_with_retries env cfg idx msg st) ! idx) = ''FAILED''
          \<longleftrightarrow> attempts_made (attempt_succeeds env cfg st) (nat (max_retries cfg))
                = nat (max_retries cfg)
              \<and> (\<forall>k < nat (max_retries cfg). \<not> attempt_succeeds env cfg st k))
     \<and> raised (send_with_retries env cfg idx msg st) = raised st"
proof -
  let ?ok = "attempt_succeeds env cfg st"
  let ?m = "nat (max_retries cfg)"
  have loop: "send_loop env cfg idx msg 0 False st =
       (failures_before ?ok ?m < ?m,
        st\<lparr>events := events st @ retry_trace idx (retry_delay_seconds cfg) 0 (attempts_made ?ok ?m),
           smtp_calls := smtp_calls st +
              (if smtp_username cfg \<noteq> [] \<and> smtp_password cfg \<noteq> []
               then attempts_made ?ok ?m else 0)\<rparr>)"
    by (rule send_loop_closed [OF assms(1)]) simp
  have ev: "events (send_with_retries env cfg idx msg st)
           = events st @ retry_trace idx (retry_delay_seconds cfg) 0 (attempts_made ?ok ?m)"
    and rs: "raised (send_with_retries env cfg idx msg st) = raised st"
    by (simp_all add: send_with_retries_def loop set_status_def)
  have stat: "Status (df (send_with_retries env cfg idx msg st) ! idx)
       = (if failures_before ?ok ?m < ?m then ''SENT'' else ''FAILED'')"
    using assms(2,3) by (simp add: send_with_retries_def loop set_status_def)
  have sent: "Status (df (send_with_retries env cfg idx msg st) ! idx) = ''SENT''
       \<longleftrightarrow> (\<exists>k < attempts_made ?ok ?m. ?ok k)"
    by (simp add: stat attempts_made_success_iff failures_before_lt_iff)
  have failed: "Status (df (send_with_retries env cfg idx msg st) ! idx) = ''FAILED''
       \<longleftrightarrow> attempts_made ?ok ?m = ?m \<and> (\<forall>k < ?m. \<not> ?ok k)"
    using attempts_made_all_failed [of ?m ?ok]
    by (auto simp: stat failures_before_lt_iff)
  from ev rs sent failed retry_trace_counts [of idx "retry_delay_seconds cfg" 0 "attempts_made ?ok ?m"]
    attempts_made_le [of ?ok ?m] attempts_made_first [of _ ?ok ?m]
  show ?thesis by blast
qed

text \<open>The two runs of the specification: three attempts allowed and a transport
  that fails twice, then succeeds; two attempts allowed and a transport that always
  fails.\<close>

theorem send_with_retries_outcome_witness:
  "events (send_with_retries env_flaky cfg_three 0 msg_one (initial_state [row_one]))
     = [EvAttempt 0 1, EvSleep 30, EvAttempt 0 2, EvSleep 30, EvAttempt 0 3]
   \<and> Status (df (send_with_retries env_flaky cfg_three 0 msg_one (initial_state [row_one])) ! 0)
     = ''SENT''
   \<and> attempts_made (attempt_succeeds env_flaky cfg_three (initial_state [row_one])) 3 = 3
   \<and> events (send_with_retries env_down cfg_two 0 msg_one (initial_state [row_one]))
     = [EvAttempt 0 1, EvSleep 30, EvAttempt 0 2]
   \<and> Status (df (send_with_retries env_down cfg_two 0 msg_one (initial_state [row_one])) ! 0)
     = ''FAILED''
   \<and> attempts_made (attempt_succeeds env_down cfg_two (initial_state [row_one])) 2 = 2"
proof -
  have h3: "0 \<le> retry_delay_seconds cfg_three" "0 < length (df (initial_state [row_one]))"
      "raised (initial_state [row_one]) = None" "nat (max_retries cfg_three) = 3"
    by code_simp+
  have h2: "0 \<le> retry_delay_seconds cfg_two" "nat (max_retries cfg_two) = 2"
    by code_simp+
  have ok3: "attempt_succeeds env_flaky cfg_three (initial_state [row_one]) 2"
    by code_simp
  have m3: "attempts_made (attempt_succeeds env_flaky cfg_three (initial_state [row_one])) 3 = 3"
    by code_simp
  have m2: "attempts_made (attempt_succeeds env_down cfg_two (initial_state [row_one])) 2 = 2"
    by code_simp
  have no2: "\<forall>k<2. \<not> attempt_succeeds env_down cfg_two (initial_state [row_one]) k"
    by (simp add: attempt_succeeds_def env_down_def)
  have t3: "retry_trace 0 (retry_delay_seconds cfg_three) 0 3
     = [EvAttempt 0 1, EvSleep 30, EvAttempt 0 2, EvSleep 30, EvAttempt 0 3]"
    by code_simp
  have t2: "retry_trace 0 (retry_delay_seconds cfg_two) 0 2
     = [EvAttempt 0 1, EvSleep 30, EvAttempt 0 2]"
    by code_simp
  have e0: "events (initial_state [row_one]) = []"
    by (simp add: initial_state_def)
  note a = send_with_retries_outcome [OF h3(1) h3(2) h3(3), of env_flaky msg_one]
  note b = send_with_retries_outcome [OF h2(1) h3(2) h3(3), of env_down msg_one]
  from a ok3 have "Status (df (send_with_retries env_flaky cfg_three 0 msg_one
      (initial_state [row_one])) ! 0) = ''SENT''"
    unfolding h3(4) m3 by (auto intro: exI [of _ 2])
  moreover from b no2 have "Status (df (send_with_retries env_down cfg_two 0 msg_one
      (initial_state [row_one])) ! 0) = ''FAILED''"
    unfolding h2(2) m2 by simp
  moreover from a have "events (send_with_retries env_flaky cfg_three 0 msg_one
      (initial_state [row_one])) = [EvAttempt 0 1, EvSleep 30, EvAttempt 0 2, EvSleep 30, EvAttempt 0 3]"
    unfolding h3(4) m3 t3 e0 by simp
  moreover from b have "events (send_with_retries env_down cfg_two 0 msg_one
      (initial_state [row_one])) = [EvAttempt 0 1, EvSleep 30, EvAttempt 0 2]"
    unfolding h2(2) m2 t2 e0 by simp
  ultimately show ?thesis using m3 m2 by simp
qed

section \<open>The body of the loop, branch by branch\<close>

lemma send_frame_refl: "send_frame idx st st"
  by (simp add: send_frame_def)

lemma send_frame_trans:
  "send_frame idx st st1 \<Longrightarrow> send_frame idx st1 st2 \<Longrightarrow> send_frame idx st st2"
  by (auto simp: send_frame_def)

lemma send_frame_event:
  "sending_event idx ev \<Longrightarrow> send_frame idx st (st\<lparr>events := events st @ [ev]\<rparr>)"
  by (simp add: send_frame_def)

lemma send_frame_raised: "send_frame idx st (st\<lparr>raised := x\<rparr>)"
  by (simp add: send_frame_def)

lemma send_frame_send_email: "send_frame idx st (snd (send_email env cfg msg st))"
  by (simp add: send_email_def send_frame_def Let_def)

lemma send_loop_frame:
  "m = nat (max_retries cfg - a) \<Longrightarrow> send_frame idx st (snd (send_loop env cfg idx msg a s st))"
proof (induction m arbitrary: a s st)
  case 0
  then have "\<not> a < max_retries cfg" by simp
  then show ?case by (simp add: send_loop_done send_frame_refl)
next
  case (Suc m)
  then have m: "m = nat (max_retries cfg - (a + 1))" by simp
  let ?st1 = "st\<lparr>events := events st @ [EvAttempt idx (a + 1)]\<rparr>"
  let ?st2 = "snd (send_email env cfg msg ?st1)"
  let ?st3 = "?st2\<lparr>events := events ?st2 @ [EvSleep (retry_delay_seconds cfg)]\<rparr>"
  have f2: "send_frame idx st ?st2"
    by (rule send_frame_trans [OF send_frame_event send_frame_send_email])
       (simp add: sending_event_def)
  have f3: "send_frame idx st ?st3"
    by (rule send_frame_trans [OF f2 send_frame_event]) (simp add: sending_event_def)
  have fr: "send_frame idx st (?st2\<lparr>raised := Some ValueError\<rparr>)"
    by (rule send_frame_trans [OF f2 send_frame_raised])
  note ih2 = send_frame_trans [OF f2 Suc.IH [OF m, of ?st2]]
  note ih3 = send_frame_trans [OF f3 Suc.IH [OF m, of ?st3]]
  show ?case
    by (subst send_loop.simps) (simp add: Let_def send_frame_refl ih2 ih3 fr)
qed


lemma eligible_iff:
  "eligible r \<longleftrightarrow> \<not> (py_upper (py_strip (Status r)) = ''SENT'')
     \<and> \<not> (py_strip (Status r) \<noteq> [] \<and> py_upper (py_strip (Status r)) \<notin> set [[], ''PENDING'', ''TO_SEND''])"
  by (simp add: eligible_def already_sent_def other_status_def)

lemma process_row_skipped:
  "\<not> eligible (df st ! idx) \<Longrightarrow> process_row env cfg idx st = st"
  unfolding eligible_iff by (auto simp: process_row_def Let_def)

lemma process_row_duplicate:
  "eligible (df st ! idx) \<Longrightarrow> dedup_key (df st ! idx) \<in> processed_keys st \<Longrightarrow>
     process_row env cfg idx st = set_status idx ''SKIPPED_DUPLICATE'' st"
  unfolding eligible_iff by (auto simp: process_row_def Let_def dedup_key_def)

text \<open>The continuation of a row after its message is built.\<close>

lemma process_row_fresh:
  assumes "eligible (df st ! idx)" and "dedup_key (df st ! idx) \<notin> processed_keys st"
  shows "process_row env cfg idx st =
     (case select_resume (fsys env) (py_strip (JobRole (df st ! idx))) (resumes_folder cfg)
             (Some (default_resume cfg)) of
        None \<Rightarrow> persist_and_record env (dedup_key (df st ! idx))
                  (set_status idx ''SKIPPED_NO_RESUME'' st)
      | Some resume_path \<Rightarrow>
          if resume_path = [] then
            persist_and_record env (dedup_key (df st ! idx)) (set_status idx ''SKIPPED_NO_RESUME'' st)
          else
           (case build_email_message (fsys env) (guess_type env) (random_choice env idx)
                   (py_strip (Email (df st ! idx)))
                   (if py_strip (ContactName (df st ! idx)) \<noteq> []
                    then Some (py_strip (ContactName (df st ! idx))) else None)
                   (py_strip (JobRole (df st ! idx))) (py_strip (CompanyName (df st ! idx)))
                   resume_path
                   (fst (select_cover_letter (fsys env) (py_strip (JobRole (df st ! idx)))))
                   (snd (select_cover_letter (fsys env) (py_strip (JobRole (df st ! idx)))))
                   (sender_name cfg)
                   (if sender_email cfg \<noteq> [] then sender_email cfg else smtp_username cfg)
                   (where_found cfg) of
              Inl e \<Rightarrow> persist_and_record env (dedup_key (df st ! idx))
                         (set_status idx ''FAILED_BUILD_MESSAGE'' st)
            | Inr msg \<Rightarrow> send_and_persist env cfg idx (dedup_key (df st ! idx)) msg st))"
proof -
  from assms(1) have g1: "py_upper (py_strip (Status (df st ! idx))) \<noteq> ''SENT''"
    and g2: "\<not> (py_strip (Status (df st ! idx)) \<noteq> []
          \<and> py_upper (py_strip (Status (df st ! idx))) \<notin> set [[], ''PENDING'', ''TO_SEND''])"
    unfolding eligible_iff by blast+
  from assms(2) have k: "(py_lower (py_strip (Email (df st ! idx))),
        py_lower (py_strip (JobRole (df st ! idx))),
        py_lower (py_strip (CompanyName (df st ! idx)))) \<notin> processed_keys st"
    by (simp add: dedup_key_def)
  show ?thesis
    unfolding process_row_def Let_def dedup_key_def split_beta
    by (simp only: g1 g2 k if_False)
qed

lemma write_sheet_effect:
  "df (snd (write_dataframe_to_sheet env tbl st)) = df st
   \<and> processed_keys (snd (write_dataframe_to_sheet env tbl st)) = processed_keys st
   \<and> events (snd (write_dataframe_to_sheet env tbl st)) = events st @ [EvWrite tbl]
   \<and> raised (snd (write_dataframe_to_sheet env tbl st)) = raised st
   \<and> smtp_calls (snd (write_dataframe_to_sheet env tbl st)) = smtp_calls st"
  by (simp add: write_dataframe_to_sheet_def Let_def)

lemma persist_and_record_effect:
  "df (persist_and_record env key st) = df st
   \<and> events (persist_and_record env key st) = events st @ [EvWrite (df st)]
   \<and> (processed_keys (persist_and_record env key st) = processed_keys st
        \<and> raised (persist_and_record env key st) \<noteq> None
      \<or> processed_keys (persist_and_record env key st) = insert key (processed_keys st)
        \<and> raised (persist_and_record env key st) = raised st)"
  by (simp add: persist_and_record_def write_dataframe_to_sheet_def Let_def)

lemma persist_after_send_effect:
  "df (persist_after_send env st) = df st
   \<and> processed_keys (persist_after_send env st) = processed_keys st
   \<and> events (persist_after_send env st) = events st @ [EvWrite (df st)]
   \<and> raised (persist_after_send env st) = raised st"
  by (simp add: persist_after_send_def write_sheet_effect)

lemma set_status_effect:
  "df (set_status idx s st) = (df st)[idx := (df st ! idx)\<lparr>Status := s\<rparr>]
   \<and> processed_keys (set_status idx s st) = processed_keys st
   \<and> events (set_status idx s st) = events st
   \<and> raised (set_status idx s st) = raised st"
  by (simp add: set_status_def)

text \<open>The retry loop with its status: either an exception left it and the table is
  as before, or the row has the status \<open>SENT\<close> or \<open>FAILED\<close>.\<close>

lemma send_with_retries_effect:
  "processed_keys (send_with_retries env cfg idx msg st) = processed_keys st
   \<and> (\<exists>evs. events (send_with_retries env cfg idx msg st) = events st @ evs
         \<and> list_all (sending_event idx) evs)
   \<and> (raised (send_with_retries env cfg idx msg st) \<noteq> None
         \<and> df (send_with_retries env cfg idx msg st) = df st
       \<or> raised (send_with_retries env cfg idx msg st) = None
         \<and> (\<exists>s \<in> {''SENT'', ''FAILED''}.
            df (send_with_retries env cfg idx msg st) = (df st)[idx := (df st ! idx)\<lparr>Status := s\<rparr>]))"
proof -
  obtain sent st1 where l: "send_loop env cfg idx msg 0 False st = (sent, st1)"
    by (cases "send_loop env cfg idx msg 0 False st")
  have "send_frame idx st (snd (send_loop env cfg idx msg 0 False st))"
    by (rule send_loop_frame) simp
  with l have f: "send_frame idx st st1" by simp
  then show ?thesis
    by (auto simp: send_with_retries_def l send_frame_def set_status_def)
qed

lemma list_all_weaken: "list_all P xs \<Longrightarrow> (\<And>x. P x \<Longrightarrow> Q x) \<Longrightarrow> list_all Q xs"
  by (induction xs) auto

lemma row_frame_skipped: "row_frame idx st st"
proof -
  have "df st = (df st)[idx := (df st ! idx)\<lparr>Status := Status (df st ! idx)\<rparr>]"
    by simp
  then have "\<exists>s. df st = (df st)[idx := (df st ! idx)\<lparr>Status := s\<rparr>]" ..
  then show ?thesis by (simp add: row_frame_def)
qed

lemma row_frame_duplicate: "row_frame idx st (set_status idx s st)"
proof -
  have "\<exists>s'. df (set_status idx s st) = (df st)[idx := (df st ! idx)\<lparr>Status := s'\<rparr>]"
    by (rule exI [of _ s]) (simp add: set_status_def)
  then show ?thesis by (simp add: row_frame_def set_status_effect)
qed

lemma row_frame_record:
  assumes "eligible (df st ! idx)"
  shows "row_frame idx st (persist_and_record env (dedup_key (df st ! idx)) (set_status idx s st))"
proof -
  let ?st1 = "set_status idx s st"
  let ?st2 = "persist_and_record env (dedup_key (df st ! idx)) ?st1"
  note p = persist_and_record_effect [of env "dedup_key (df st ! idx)" ?st1]
  have d: "df ?st2 = (df st)[idx := (df st ! idx)\<lparr>Status := s\<rparr>]"
    using p by (simp add: set_status_effect)
  have e: "events ?st2 = events st @ [EvWrite (df ?st1)]"
    using p by (simp add: set_status_effect)
  have k: "processed_keys ?st2 = processed_keys st
      \<or> processed_keys ?st2 = insert (dedup_key (df st ! idx)) (processed_keys st)"
    using p by (auto simp: set_status_effect)
  have "list_all (\<lambda>ev. sending_event idx ev \<or> is_write ev) [EvWrite (df ?st1)]"
    by (simp add: is_write_def)
  with e have "\<exists>evs. events ?st2 = events st @ evs
       \<and> list_all (\<lambda>ev. sending_event idx ev \<or> is_write ev) evs"
    by blast
  moreover from d have "\<exists>s'. df ?st2 = (df st)[idx := (df st ! idx)\<lparr>Status := s'\<rparr>]" ..
  ultimately show ?thesis
    unfolding row_frame_def using k assms by blast
qed


lemma send_and_persist_effect:
  "(\<exists>evs. events (send_and_persist env cfg idx key msg st) = events st @ evs
       \<and> list_all (\<lambda>ev. sending_event idx ev \<or> is_write ev) evs)
   \<and> (raised (send_and_persist env cfg idx key msg st) \<noteq> None
         \<and> df (send_and_persist env cfg idx key msg st) = df st
         \<and> processed_keys (send_and_persist env cfg idx key msg st) = processed_keys st
       \<or> raised (send_and_persist env cfg idx key msg st) = None
         \<and> processed_keys (send_and_persist env cfg idx key msg st) = insert key (processed_keys st)
         \<and> (\<exists>s \<in> {''SENT'', ''FAILED''}.
               df (send_and_persist env cfg idx key msg st)
                 = (df st)[idx := (df st ! idx)\<lparr>Status := s\<rparr>])
         \<and> (\<exists>evs. events (send_and_persist env cfg idx key msg st)
                 = events st @ evs @ [EvWrite (df (send_and_persist env cfg idx key msg st))]))"
proof -
  let ?s1 = "send_with_retries env cfg idx msg st"
  from send_with_retries_effect [of env cfg idx msg st]
  obtain evs where k: "processed_keys ?s1 = processed_keys st"
    and e: "events ?s1 = events st @ evs" and l: "list_all (sending_event idx) evs"
    and d: "raised ?s1 \<noteq> None \<and> df ?s1 = df st
       \<or> raised ?s1 = None
         \<and> (\<exists>s \<in> {''SENT'', ''FAILED''}. df ?s1 = (df st)[idx := (df st ! idx)\<lparr>Status := s\<rparr>])"
    by blast
  from l have l2: "list_all (\<lambda>ev. sending_event idx ev \<or> is_write ev) evs"
    by (rule list_all_weaken) simp
  show ?thesis
  proof (cases "raised ?s1 = None")
    case False
    then have eq: "send_and_persist env cfg idx key msg st = ?s1"
      by (simp add: send_and_persist_def)
    from False d have "df ?s1 = df st" by auto
    with False k e l2 show ?thesis unfolding eq by auto
  next
    case True
    let ?s2 = "persist_after_send env ?s1"
    note p = persist_after_send_effect [of env ?s1]
    from True have eq: "send_and_persist env cfg idx key msg st
        = ?s2\<lparr>processed_keys := insert key (processed_keys ?s2)\<rparr>"
      by (simp add: send_and_persist_def Let_def)
    have r: "raised (send_and_persist env cfg idx key msg st) = None"
      unfolding eq using p True by simp
    have k': "processed_keys (send_and_persist env cfg idx key msg st) = insert key (processed_keys st)"
      unfolding eq using p k by simp
    have d': "df (send_and_persist env cfg idx key msg st) = df ?s1"
      unfolding eq using p by simp
    have e': "events (send_and_persist env cfg idx key msg st)
        = events st @ evs @ [EvWrite (df (send_and_persist env cfg idx key msg st))]"
      unfolding d' unfolding eq using p e by simp
    have "list_all (\<lambda>ev. sending_event idx ev \<or> is_write ev) (evs @ [EvWrite (df ?s1)])"
      using l2 by (simp add: is_write_def)
    with e' d' have e'': "\<exists>evs. events (send_and_persist env cfg idx key msg st) = events st @ evs
       \<and> list_all (\<lambda>ev. sending_event idx ev \<or> is_write ev) evs"
      by metis
    from d True have "\<exists>s \<in> {''SENT'', ''FAILED''}.
        df (send_and_persist env cfg idx key msg st) = (df st)[idx := (df st ! idx)\<lparr>Status := s\<rparr>]"
      unfolding d' by auto
    with r k' e' e'' show ?thesis by (intro conjI disjI2) auto
  qed
qed

lemma row_frame_send:
  assumes "eligible (df st ! idx)"
  shows "row_frame idx st (send_and_persist env cfg idx (dedup_key (df st ! idx)) msg st)"
proof -
  let ?st' = "send_and_persist env cfg idx (dedup_key (df st ! idx)) msg st"
  note p = send_and_persist_effect [of env cfg idx "dedup_key (df st ! idx)" msg st]
  note e = p [THEN conjunct1]
  have dk: "(\<exists>s. df ?st' = (df st)[idx := (df st ! idx)\<lparr>Status := s\<rparr>])
     \<and> (processed_keys ?st' = processed_keys st
        \<or> processed_keys ?st' = insert (dedup_key (df st ! idx)) (processed_keys st))"
    using p [THEN conjunct2]
  proof (elim disjE conjE bexE)
    assume "df ?st' = df st" and k: "processed_keys ?st' = processed_keys st"
    then have "df ?st' = (df st)[idx := (df st ! idx)\<lparr>Status := Status (df st ! idx)\<rparr>]"
      by simp
    then have "\<exists>s. df ?st' = (df st)[idx := (df st ! idx)\<lparr>Status := s\<rparr>]" ..
    with k show ?thesis by simp
  next
    fix s
    assume k: "processed_keys ?st' = insert (dedup_key (df st ! idx)) (processed_keys st)"
      and "df ?st' = (df st)[idx := (df st ! idx)\<lparr>Status := s\<rparr>]"
    then have "\<exists>s. df ?st' = (df st)[idx := (df st ! idx)\<lparr>Status := s\<rparr>]" by (intro exI)
    with k show ?thesis by simp
  qed
  show ?thesis
    unfolding row_frame_def
  proof (intro conjI)
    show "\<exists>s. df ?st' = (df st)[idx := (df st ! idx)\<lparr>Status := s\<rparr>]"
      by (rule dk [THEN conjunct1])
    show "processed_keys ?st' = processed_keys st
       \<or> eligible (df st ! idx)
         \<and> processed_keys ?st' = insert (dedup_key (df st ! idx)) (processed_keys st)"
      using dk [THEN conjunct2] assms by (elim disjE) simp_all
    show "\<exists>evs. events ?st' = events st @ evs
       \<and> list_all (\<lambda>ev. sending_event idx ev \<or> is_write ev) evs"
      by (rule e)
  qed
qed


lemma process_row_frame: "row_frame idx st (process_row env cfg idx st)"
proof (cases "eligible (df st ! idx)")
  case False
  then show ?thesis by (simp add: process_row_skipped row_frame_skipped)
next
  case el: True
  show ?thesis
  proof (cases "dedup_key (df st ! idx) \<in> processed_keys st")
    case True
    with el show ?thesis by (simp add: process_row_duplicate row_frame_duplicate)
  next
    case False
    show ?thesis
      unfolding process_row_fresh [OF el False]
      by (simp add: row_frame_record [OF el] row_frame_send [OF el] split: option.split sum.split)
  qed
qed

section \<open>The loop over the rows\<close>

lemma row_frame_length: "row_frame idx st st' \<Longrightarrow> length (df st') = length (df st)"
  by (auto simp: row_frame_def)

lemma row_frame_other: "row_frame idx st st' \<Longrightarrow> j \<noteq> idx \<Longrightarrow> df st' ! j = df st ! j"
  by (auto simp: row_frame_def)

lemma row_frame_fields:
  "row_frame idx st st' \<Longrightarrow> df st' ! j = (df st ! j)\<lparr>Status := Status (df st' ! j)\<rparr>"
proof -
  assume "row_frame idx st st'"
  then obtain s where d: "df st' = (df st)[idx := (df st ! idx)\<lparr>Status := s\<rparr>]"
    by (auto simp: row_frame_def)
  show ?thesis
  proof (cases "j = idx \<and> idx < length (df st)")
    case True
    then show ?thesis by (simp add: d)
  next
    case False
    then have "df st' ! j = df st ! j"
      by (cases "idx < length (df st)") (auto simp: d list_update_beyond)
    then show ?thesis by simp
  qed
qed

lemma row_frame_keys_mono: "row_frame idx st st' \<Longrightarrow> processed_keys st \<subseteq> processed_keys st'"
  by (auto simp: row_frame_def)

lemma attempts_for_append: "attempts_for j (xs @ ys) = attempts_for j xs @ attempts_for j ys"
  by (simp add: attempts_for_def)

lemma attempts_for_other:
  "list_all (\<lambda>ev. sending_event idx ev \<or> is_write ev) evs \<Longrightarrow> j \<noteq> idx \<Longrightarrow> attempts_for j evs = []"
  by (induction evs)
     (auto simp: attempts_for_def sending_event_def is_write_def split: event.splits)

lemma row_frame_attempts:
  "row_frame idx st st' \<Longrightarrow> j \<noteq> idx \<Longrightarrow> attempts_for j (events st') = attempts_for j (events st)"
  by (auto simp: row_frame_def attempts_for_append attempts_for_other)

text \<open>A row that the loop does not visit keeps its cells, and no attempt is made for it.\<close>

lemma run_rows_untouched:
  "j \<notin> set idxs \<Longrightarrow>
     df (run_rows env cfg idxs st) ! j = df st ! j
     \<and> attempts_for j (events (run_rows env cfg idxs st)) = attempts_for j (events st)"
proof (induction idxs arbitrary: st)
  case Nil
  show ?case by simp
next
  case (Cons x rest)
  note f = process_row_frame [of x st env cfg]
  from Cons.prems have ne: "j \<noteq> x" and nr: "j \<notin> set rest" by auto
  from Cons.IH [OF nr, of "process_row env cfg x st"]
    row_frame_other [OF f ne] row_frame_attempts [OF f ne]
  show ?case by (simp add: Let_def)
qed


text \<open>The loop changes nothing of a row but its status.\<close>

lemma run_rows_fields:
  "df (run_rows env cfg idxs st) ! j = (df st ! j)\<lparr>Status := Status (df (run_rows env cfg idxs st) ! j)\<rparr>"
proof (induction idxs arbitrary: st)
  case Nil
  show ?case by simp
next
  case (Cons x rest)
  let ?s1 = "process_row env cfg x st"
  note a = row_frame_fields [OF process_row_frame [of x st env cfg], of j]
  show ?case
  proof (cases "raised ?s1 \<noteq> None")
    case True
    with a show ?thesis by (simp add: Let_def)
  next
    case False
    then have r: "run_rows env cfg (x # rest) st = run_rows env cfg rest ?s1"
      by (simp add: Let_def)
    have "df (run_rows env cfg rest ?s1) ! j
        = (df ?s1 ! j)\<lparr>Status := Status (df (run_rows env cfg rest ?s1) ! j)\<rparr>"
      by (rule Cons.IH)
    also have "\<dots> = (df st ! j)\<lparr>Status := Status (df (run_rows env cfg rest ?s1) ! j)\<rparr>"
      by (subst a) simp
    finally show ?thesis unfolding r .
  qed
qed


lemma run_rows_raised_step:
  "raised (run_rows env cfg (x # rest) st) = None \<Longrightarrow>
     raised (process_row env cfg x st) = None
     \<and> run_rows env cfg (x # rest) st = run_rows env cfg rest (process_row env cfg x st)"
  by (auto simp: Let_def split: if_splits)

lemma process_row_fresh_disj:
  assumes "eligible (df st ! idx)" and "dedup_key (df st ! idx) \<notin> processed_keys st"
  shows "process_row env cfg idx st
      = persist_and_record env (dedup_key (df st ! idx)) (set_status idx ''SKIPPED_NO_RESUME'' st)
   \<or> process_row env cfg idx st
      = persist_and_record env (dedup_key (df st ! idx)) (set_status idx ''FAILED_BUILD_MESSAGE'' st)
   \<or> (\<exists>msg. process_row env cfg idx st
      = send_and_persist env cfg idx (dedup_key (df st ! idx)) msg st)"
  unfolding process_row_fresh [OF assms]
  by (simp split: option.split sum.split) blast

lemma process_row_fresh_cases:
  assumes "eligible (df st ! idx)" and "dedup_key (df st ! idx) \<notin> processed_keys st"
  obtains (no_resume) "process_row env cfg idx st
      = persist_and_record env (dedup_key (df st ! idx)) (set_status idx ''SKIPPED_NO_RESUME'' st)"
  | (build_failed) "process_row env cfg idx st
      = persist_and_record env (dedup_key (df st ! idx)) (set_status idx ''FAILED_BUILD_MESSAGE'' st)"
  | (sending) msg where "process_row env cfg idx st
      = send_and_persist env cfg idx (dedup_key (df st ! idx)) msg st"
  using process_row_fresh_disj [OF assms, of env cfg] by (elim disjE exE)

lemma persist_and_record_status:
  "idx < length (df st) \<Longrightarrow>
     Status (df (persist_and_record env key (set_status idx s st)) ! idx) = s"
  by (simp add: persist_and_record_effect set_status_effect)

lemma persist_and_record_key:
  "raised st = None \<Longrightarrow> raised (persist_and_record env key st) = None \<Longrightarrow>
     processed_keys (persist_and_record env key st) = insert key (processed_keys st)"
  using persist_and_record_effect [of env key st] by auto

lemma send_and_persist_key:
  "raised (send_and_persist env cfg idx key msg st) = None \<Longrightarrow>
     processed_keys (send_and_persist env cfg idx key msg st) = insert key (processed_keys st)"
  using send_and_persist_effect [of env cfg idx key msg st, THEN conjunct2] by (elim disjE conjE) simp_all

lemma send_and_persist_status:
  assumes "raised (send_and_persist env cfg idx key msg st) = None" and "idx < length (df st)"
  shows "Status (df (send_and_persist env cfg idx key msg st) ! idx) \<in> {''SENT'', ''FAILED''}"
  using send_and_persist_effect [of env cfg idx key msg st, THEN conjunct2] assms
  by (elim disjE conjE bexE) simp_all

text \<open>A row that is handled and not left by an exception has its key recorded and
  carries one of the five statuses; a row handled for the first time carries one of
  the four that are not \<open>SKIPPED_DUPLICATE\<close>.\<close>

lemma process_row_key:
  assumes "eligible (df st ! idx)" and "raised st = None"
    and "raised (process_row env cfg idx st) = None"
  shows "dedup_key (df st ! idx) \<in> processed_keys (process_row env cfg idx st)"
proof (cases "dedup_key (df st ! idx) \<in> processed_keys st")
  case True
  with assms(1) show ?thesis
    by (simp add: process_row_duplicate set_status_effect)
next
  case False
  have rs: "raised (set_status idx s st) = None" for s
    using assms(2) by (simp add: set_status_effect)
  from assms(1) False show ?thesis
  proof (cases rule: process_row_fresh_cases [where env = env and cfg = cfg])
    case no_resume
    with assms(3) persist_and_record_key [OF rs] show ?thesis by simp
  next
    case build_failed
    with assms(3) persist_and_record_key [OF rs] show ?thesis by simp
  next
    case (sending msg)
    with assms(3) send_and_persist_key show ?thesis by simp
  qed
qed

lemma process_row_fresh_status:
  assumes "eligible (df st ! idx)" and "dedup_key (df st ! idx) \<notin> processed_keys st"
    and "idx < length (df st)" and "raised (process_row env cfg idx st) = None"
  shows "Status (df (process_row env cfg idx st) ! idx)
     \<in> {''SENT'', ''FAILED'', ''SKIPPED_NO_RESUME'', ''FAILED_BUILD_MESSAGE''}"
  using assms(1,2)
proof (cases rule: process_row_fresh_cases [where env = env and cfg = cfg])
  case no_resume
  then show ?thesis by (simp add: persist_and_record_status [OF assms(3)])
next
  case build_failed
  then show ?thesis by (simp add: persist_and_record_status [OF assms(3)])
next
  case (sending msg)
  with assms(4) send_and_persist_status [OF _ assms(3), of env cfg "dedup_key (df st ! idx)" msg]
  show ?thesis by auto
qed

lemma process_row_status:
  assumes "eligible (df st ! idx)" and "idx < length (df st)"
    and "raised (process_row env cfg idx st) = None"
  shows "Status (df (process_row env cfg idx st) ! idx) \<in> set outcome_statuses"
proof (cases "dedup_key (df st ! idx) \<in> processed_keys st")
  case True
  with assms(1,2) show ?thesis
    by (simp add: process_row_duplicate set_status_effect outcome_statuses_def)
next
  case False
  from process_row_fresh_status [OF assms(1) False assms(2,3)]
  show ?thesis by (auto simp: outcome_statuses_def)
qed

lemma not_eligible_status: "\<not> eligible r \<Longrightarrow> Status r \<noteq> []"
  by (auto simp: eligible_def already_sent_def other_status_def py_strip_def py_upper_def)

text \<open>A row whose key is already recorded when the loop reaches it is marked as a
  duplicate, and no attempt is made for it.\<close>

lemma run_rows_duplicate:
  assumes "distinct idxs" and "j \<in> set idxs" and "j < length (df st)"
    and "eligible (df st ! j)" and "dedup_key (df st ! j) \<in> processed_keys st"
    and "raised (run_rows env cfg idxs st) = None"
  shows "Status (df (run_rows env cfg idxs st) ! j) = ''SKIPPED_DUPLICATE''
     \<and> attempts_for j (events (run_rows env cfg idxs st)) = attempts_for j (events st)"
  using assms
proof (induction idxs arbitrary: st)
  case Nil
  then show ?case by simp
next
  case (Cons x rest)
  let ?s1 = "process_row env cfg x st"
  note f = process_row_frame [of x st env cfg]
  from run_rows_raised_step [OF Cons.prems(6)]
  have r1: "raised ?s1 = None"
    and run: "run_rows env cfg (x # rest) st = run_rows env cfg rest ?s1" by simp_all
  show ?case
  proof (cases "x = j")
    case True
    with Cons.prems have s1: "process_row env cfg j st = set_status j ''SKIPPED_DUPLICATE'' st"
      by (simp add: process_row_duplicate)
    from True Cons.prems(1) have "j \<notin> set rest" by simp
    from run_rows_untouched [OF this, of env cfg ?s1] True Cons.prems(3)
    show ?thesis unfolding run by (simp add: s1 set_status_effect)
  next
    case False
    then have ne: "j \<noteq> x" by simp
    with Cons.prems have jr: "j \<in> set rest" and dr: "distinct rest" by auto
    have row: "df ?s1 ! j = df st ! j" by (rule row_frame_other [OF f ne])
    have len: "j < length (df ?s1)" using Cons.prems(3) row_frame_length [OF f] by simp
    have key: "dedup_key (df ?s1 ! j) \<in> processed_keys ?s1"
      using Cons.prems(5) row_frame_keys_mono [OF f] row by auto
    have el: "eligible (df ?s1 ! j)" using Cons.prems(4) row by simp
    have fin: "raised (run_rows env cfg rest ?s1) = None"
      using Cons.prems(6) run by simp
    from Cons.IH [OF dr jr len el key fin] row_frame_attempts [OF f ne]
    show ?thesis unfolding run by simp
  qed
qed


lemma run_rows_later_duplicate:
  assumes "distinct (xs @ i # ys)" and "j \<in> set ys" and "j < length (df st)"
    and "eligible (df st ! i)" and "eligible (df st ! j)"
    and "dedup_key (df st ! i) = dedup_key (df st ! j)"
    and "raised st = None" and "raised (run_rows env cfg (xs @ i # ys) st) = None"
  shows "Status (df (run_rows env cfg (xs @ i # ys) st) ! j) = ''SKIPPED_DUPLICATE''
     \<and> attempts_for j (events (run_rows env cfg (xs @ i # ys) st)) = attempts_for j (events st)"
  using assms
proof (induction xs arbitrary: st)
  case Nil
  let ?s1 = "process_row env cfg i st"
  note f = process_row_frame [of i st env cfg]
  from Nil.prems(8) have fin0: "raised (run_rows env cfg (i # ys) st) = None" by simp
  from run_rows_raised_step [OF fin0]
  have r1: "raised ?s1 = None"
    and run: "run_rows env cfg (i # ys) st = run_rows env cfg ys ?s1" by simp_all
  from Nil.prems(1,2) have ne: "j \<noteq> i" and dy: "distinct ys" by auto
  have row: "df ?s1 ! j = df st ! j" by (rule row_frame_other [OF f ne])
  have len: "j < length (df ?s1)" using Nil.prems(3) row_frame_length [OF f] by simp
  have el: "eligible (df ?s1 ! j)" using Nil.prems(5) row by simp
  have "dedup_key (df st ! i) \<in> processed_keys ?s1"
    using Nil.prems(4,7) r1 by (simp add: process_row_key)
  then have key: "dedup_key (df ?s1 ! j) \<in> processed_keys ?s1"
    using Nil.prems(6) row by simp
  have fin: "raised (run_rows env cfg ys ?s1) = None" using fin0 run by simp
  from run_rows_duplicate [OF dy Nil.prems(2) len el key fin] row_frame_attempts [OF f ne]
  show ?case using run by simp
next
  case (Cons x xs)
  let ?s1 = "process_row env cfg x st"
  note f = process_row_frame [of x st env cfg]
  from Cons.prems(8) have fin0: "raised (run_rows env cfg (x # (xs @ i # ys)) st) = None" by simp
  from run_rows_raised_step [OF fin0]
  have r1: "raised ?s1 = None"
    and run: "run_rows env cfg (x # (xs @ i # ys)) st = run_rows env cfg (xs @ i # ys) ?s1"
    by simp_all
  from Cons.prems(1,2) have nj: "j \<noteq> x" and ni: "i \<noteq> x" and dr: "distinct (xs @ i # ys)"
    by auto
  have rowj: "df ?s1 ! j = df st ! j" by (rule row_frame_other [OF f nj])
  have rowi: "df ?s1 ! i = df st ! i" by (rule row_frame_other [OF f ni])
  have len: "j < length (df ?s1)" using Cons.prems(3) row_frame_length [OF f] by simp
  have fin: "raised (run_rows env cfg (xs @ i # ys) ?s1) = None" using fin0 run by simp
  from Cons.IH [OF dr Cons.prems(2) len _ _ _ r1 fin] Cons.prems(4,5,6) rowi rowj
    row_frame_attempts [OF f nj]
  show ?case using run by simp
qed

text \<open>After a loop that no exception has left, a visited row that was eligible
  carries one of the five statuses, and one that was not is as it was.\<close>

lemma run_rows_visited:
  assumes "distinct idxs" and "j \<in> set idxs" and "j < length (df st)"
    and "raised (run_rows env cfg idxs st) = None"
  shows "(eligible (df st ! j) \<longrightarrow> Status (df (run_rows env cfg idxs st) ! j) \<in> set outcome_statuses)
     \<and> (\<not> eligible (df st ! j) \<longrightarrow> df (run_rows env cfg idxs st) ! j = df st ! j)"
  using assms
proof (induction idxs arbitrary: st)
  case Nil
  then show ?case by simp
next
  case (Cons x rest)
  let ?s1 = "process_row env cfg x st"
  note f = process_row_frame [of x st env cfg]
  from run_rows_raised_step [OF Cons.prems(4)]
  have r1: "raised ?s1 = None"
    and run: "run_rows env cfg (x # rest) st = run_rows env cfg rest ?s1" by simp_all
  show ?case
  proof (cases "x = j")
    case True
    with Cons.prems(1) have "j \<notin> set rest" by simp
    note u = run_rows_untouched [OF this, of env cfg ?s1, THEN conjunct1]
    show ?thesis
    proof (cases "eligible (df st ! j)")
      case el: True
      from process_row_status [OF el Cons.prems(3), of env cfg] r1 True u
      show ?thesis unfolding run using el by simp
    next
      case False
      with True have "process_row env cfg j st = st" by (simp add: process_row_skipped)
      with u True False show ?thesis unfolding run by simp
    qed
  next
    case False
    then have ne: "j \<noteq> x" by simp
    with Cons.prems have jr: "j \<in> set rest" and dr: "distinct rest" by auto
    have row: "df ?s1 ! j = df st ! j" by (rule row_frame_other [OF f ne])
    have len: "j < length (df ?s1)" using Cons.prems(3) row_frame_length [OF f] by simp
    have fin: "raised (run_rows env cfg rest ?s1) = None" using Cons.prems(4) run by simp
    from Cons.IH [OF dr jr len fin] row show ?thesis unfolding run by simp
  qed
qed


lemma run_rows_append:
  "raised st = None \<Longrightarrow>
     run_rows env cfg (xs @ ys) st =
       (if raised (run_rows env cfg xs st) \<noteq> None then run_rows env cfg xs st
        else run_rows env cfg ys (run_rows env cfg xs st))"
  by (induction xs arbitrary: st) (auto simp: Let_def)

lemma upt_split_at: "j < n \<Longrightarrow> [0..<n] = [0..<j] @ j # [Suc j..<n]"
proof -
  assume jn: "j < n"
  then have "[0..<j + (n - j)] = [0..<j] @ [j..<j + (n - j)]"
    by (intro upt_add_eq_append) simp
  with jn show ?thesis by (simp add: upt_conv_Cons)
qed




lemma completes_reaches:
  assumes "raised st = None" and "raised (send_phase env cfg st) = None" and "j < length (df st)"
  shows "reaches env cfg st j"
proof -
  let ?st0 = "st\<lparr>processed_keys := {}\<rparr>"
  have r0: "raised ?st0 = None" using assms(1) by simp
  have "send_phase env cfg st = run_rows env cfg ([0..<j] @ j # [Suc j..<length (df st)]) ?st0"
    unfolding send_phase_def using upt_split_at [OF assms(3)] by simp
  with assms(2) have "raised (run_rows env cfg ([0..<j] @ j # [Suc j..<length (df st)]) ?st0) = None"
    by simp
  then show ?thesis
    unfolding run_rows_append [OF r0] reaches_def state_at_def by (simp split: if_splits)
qed

section \<open>Duplicates and rows passed over\<close>






lemma process_row_sending:
  assumes "eligible (df st ! idx)" and "dedup_key (df st ! idx) \<notin> processed_keys st"
    and "row_resume env cfg (df st ! idx) = Some p" and "p \<noteq> []"
    and "row_message env cfg idx (df st ! idx) p = Inr msg"
  shows "process_row env cfg idx st = send_and_persist env cfg idx (dedup_key (df st ! idx)) msg st"
  using assms(3,4,5) unfolding process_row_fresh [OF assms(1,2)] row_resume_def row_message_def
  by simp

lemma send_loop_first_ok:
  assumes "smtp_username cfg \<noteq> []" and "smtp_password cfg \<noteq> []"
    and "smtp_ok env (smtp_calls st)" and "0 < max_retries cfg"
  shows "send_loop env cfg idx msg 0 False st
     = (True, st\<lparr>events := events st @ [EvAttempt idx 1], smtp_calls := smtp_calls st + 1\<rparr>)"
  using assms
  by (subst send_loop.simps) (simp add: send_email_def Let_def send_loop_sent)

lemma send_and_persist_first_ok:
  assumes "smtp_username cfg \<noteq> []" and "smtp_password cfg \<noteq> []"
    and "smtp_ok env (smtp_calls st)" and "0 < max_retries cfg"
    and "raised st = None" and "idx < length (df st)"
  shows "Status (df (send_and_persist env cfg idx key msg st) ! idx) = ''SENT''
     \<and> events (send_and_persist env cfg idx key msg st)
        = events st @ [EvAttempt idx 1, EvWrite (df (send_and_persist env cfg idx key msg st))]"
  using assms(5,6)
  by (simp add: send_and_persist_def send_with_retries_def send_loop_first_ok [OF assms(1-4)]
      set_status_def persist_after_send_def write_dataframe_to_sheet_def Let_def)

lemma eligible_not_duplicate: "eligible r \<Longrightarrow> Status r \<noteq> ''SKIPPED_DUPLICATE''"
proof
  assume el: "eligible r" and s: "Status r = ''SKIPPED_DUPLICATE''"
  have "py_strip ''SKIPPED_DUPLICATE'' = ''SKIPPED_DUPLICATE''"
       "py_upper ''SKIPPED_DUPLICATE'' = ''SKIPPED_DUPLICATE''"
    by code_simp+
  with s have "other_status r" by (simp add: other_status_def)
  with el show False by (simp add: eligible_def)
qed

lemma process_row_fresh_not_duplicate:
  assumes "eligible (df st ! idx)" and "dedup_key (df st ! idx) \<notin> processed_keys st"
    and "idx < length (df st)"
  shows "Status (df (process_row env cfg idx st) ! idx) \<noteq> ''SKIPPED_DUPLICATE''"
  using assms(1,2)
proof (cases rule: process_row_fresh_cases [where env = env and cfg = cfg])
  case no_resume
  then show ?thesis by (simp add: persist_and_record_status [OF assms(3)])
next
  case build_failed
  then show ?thesis by (simp add: persist_and_record_status [OF assms(3)])
next
  case (sending msg)
  from send_and_persist_effect [of env cfg idx "dedup_key (df st ! idx)" msg st, THEN conjunct2]
  have "Status (df (send_and_persist env cfg idx (dedup_key (df st ! idx)) msg st) ! idx)
      \<noteq> ''SKIPPED_DUPLICATE''"
  proof (elim disjE conjE bexE)
    assume "df (send_and_persist env cfg idx (dedup_key (df st ! idx)) msg st) = df st"
    with eligible_not_duplicate [OF assms(1)] show ?thesis by simp
  next
    fix s assume "s \<in> {''SENT'', ''FAILED''}"
      and "df (send_and_persist env cfg idx (dedup_key (df st ! idx)) msg st)
         = (df st)[idx := (df st ! idx)\<lparr>Status := s\<rparr>]"
    with assms(3) show ?thesis by auto
  qed
  with sending show ?thesis by simp
qed

text \<open>Only keys of eligible rows that the loop visits are recorded.\<close>

lemma run_rows_keys_bound:
  "distinct idxs \<Longrightarrow>
     processed_keys (run_rows env cfg idxs st)
       \<subseteq> processed_keys st
         \<union> set (map (\<lambda>i. dedup_key (df st ! i)) (filter (\<lambda>i. eligible (df st ! i)) idxs))"
proof (induction idxs arbitrary: st)
  case Nil
  show ?case by simp
next
  case (Cons x rest)
  let ?s1 = "process_row env cfg x st"
  note f = process_row_frame [of x st env cfg]
  from Cons.prems have dr: "distinct rest" and xr: "x \<notin> set rest" by simp_all
  from f have k1: "processed_keys ?s1 \<subseteq> processed_keys st
       \<union> set (map (\<lambda>i. dedup_key (df st ! i)) (filter (\<lambda>i. eligible (df st ! i)) (x # rest)))"
    by (auto simp: row_frame_def)
  have same: "df ?s1 ! i = df st ! i" if "i \<in> set rest" for i
    using that xr by (intro row_frame_other [OF f]) auto
  have eq: "map (\<lambda>i. dedup_key (df ?s1 ! i)) (filter (\<lambda>i. eligible (df ?s1 ! i)) rest)
      = map (\<lambda>i. dedup_key (df st ! i)) (filter (\<lambda>i. eligible (df st ! i)) rest)"
    by (intro map_cong filter_cong) (auto simp: same)
  let ?A = "set (map (\<lambda>i. dedup_key (df st ! i)) (filter (\<lambda>i. eligible (df st ! i)) rest))"
  let ?B = "set (map (\<lambda>i. dedup_key (df st ! i)) (filter (\<lambda>i. eligible (df st ! i)) (x # rest)))"
  have ih: "processed_keys (run_rows env cfg rest ?s1) \<subseteq> processed_keys ?s1 \<union> ?A"
    using Cons.IH [OF dr, of ?s1] unfolding eq .
  have sub: "?A \<subseteq> ?B" by (cases "eligible (df st ! x)") (simp_all add: subset_insertI)
  from ih k1 sub have k2: "processed_keys (run_rows env cfg rest ?s1) \<subseteq> processed_keys st \<union> ?B"
    by blast
  show ?case
  proof (cases "raised ?s1 \<noteq> None")
    case True
    then have "run_rows env cfg (x # rest) st = ?s1" by (simp add: Let_def)
    with k1 show ?thesis by simp
  next
    case False
    then have "run_rows env cfg (x # rest) st = run_rows env cfg rest ?s1" by (simp add: Let_def)
    with k2 show ?thesis by simp
  qed
qed

lemma send_with_retries_writes: "writes (send_with_retries env cfg idx msg st) = writes st"
proof -
  obtain sent st1 where l: "send_loop env cfg idx msg 0 False st = (sent, st1)"
    by (cases "send_loop env cfg idx msg 0 False st")
  have "send_frame idx st (snd (send_loop env cfg idx msg 0 False st))"
    by (rule send_loop_frame) simp
  with l have "writes st1 = writes st" by (simp add: send_frame_def)
  then show ?thesis by (simp add: send_with_retries_def l set_status_def)
qed

lemma send_with_retries_raised:
  "0 \<le> retry_delay_seconds cfg \<Longrightarrow> raised (send_with_retries env cfg idx msg st) = raised st"
  by (simp add: send_with_retries_def send_loop_closed [where m = "nat (max_retries cfg)"]
      set_status_def)

lemma persist_and_record_sheet:
  "write_ok env (writes st) \<Longrightarrow> sheet (persist_and_record env key st) = df st"
  by (simp add: persist_and_record_def write_dataframe_to_sheet_def Let_def)

lemma persist_after_send_sheet:
  "write_ok env (writes st) \<Longrightarrow> sheet (persist_after_send env st) = df st"
  by (simp add: persist_after_send_def write_dataframe_to_sheet_def Let_def)

text \<open>The first handling of a row ends with a write of the table, with the row's
  new status in it.\<close>

lemma process_row_fresh_persisted:
  assumes "idx < length (df st)" and "eligible (df st ! idx)"
    and "dedup_key (df st ! idx) \<notin> processed_keys st"
    and "raised st = None" and "0 \<le> retry_delay_seconds cfg"
  shows "Status (df (process_row env cfg idx st) ! idx)
       \<in> {''SENT'', ''FAILED'', ''SKIPPED_NO_RESUME'', ''FAILED_BUILD_MESSAGE''}
     \<and> (\<exists>evs. events (process_row env cfg idx st)
           = events st @ evs @ [EvWrite (df (process_row env cfg idx st))])
     \<and> (write_ok env (writes st)
          \<longrightarrow> sheet (process_row env cfg idx st) = df (process_row env cfg idx st))"
proof -
  have rec: "Status (df (persist_and_record env key (set_status idx s st)) ! idx) = s
     \<and> (\<exists>evs. events (persist_and_record env key (set_status idx s st))
           = events st @ evs @ [EvWrite (df (persist_and_record env key (set_status idx s st)))])
     \<and> (write_ok env (writes st)
          \<longrightarrow> sheet (persist_and_record env key (set_status idx s st))
              = df (persist_and_record env key (set_status idx s st)))" for key s
  proof -
    let ?s1 = "set_status idx s st"
    have w: "writes ?s1 = writes st" by (simp add: set_status_def)
    have e: "events (persist_and_record env key ?s1)
        = events st @ [] @ [EvWrite (df (persist_and_record env key ?s1))]"
      by (simp add: persist_and_record_effect set_status_effect)
    then have "\<exists>evs. events (persist_and_record env key ?s1)
        = events st @ evs @ [EvWrite (df (persist_and_record env key ?s1))]" ..
    with persist_and_record_status [OF assms(1), of env key s]
      persist_and_record_sheet [of env ?s1 key] w
    show ?thesis by (simp add: persist_and_record_effect)
  qed
  from assms(2,3) show ?thesis
  proof (cases rule: process_row_fresh_cases [where env = env and cfg = cfg])
    case no_resume
    with rec show ?thesis by simp
  next
    case build_failed
    with rec show ?thesis by simp
  next
    case (sending msg)
    let ?key = "dedup_key (df st ! idx)"
    let ?s1 = "send_with_retries env cfg idx msg st"
    let ?st' = "send_and_persist env cfg idx ?key msg st"
    have r1: "raised ?s1 = None"
      using assms(4,5) by (simp add: send_with_retries_raised)
    then have eq: "?st' = (persist_after_send env ?s1)
        \<lparr>processed_keys := insert ?key (processed_keys (persist_after_send env ?s1))\<rparr>"
      by (simp add: send_and_persist_def Let_def)
    have r': "raised ?st' = None"
      unfolding eq using r1 by (simp add: persist_after_send_effect)
    have d': "df ?st' = df ?s1" unfolding eq by (simp add: persist_after_send_effect)
    from send_and_persist_effect [of env cfg idx ?key msg st, THEN conjunct2] r'
    have ev: "\<exists>evs. events ?st' = events st @ evs @ [EvWrite (df ?st')]" by auto
    from send_and_persist_status [OF r' assms(1)]
    have stt: "Status (df ?st' ! idx) \<in> {''SENT'', ''FAILED''}" .
    have sh: "sheet ?st' = df ?st'" if "write_ok env (writes st)"
      unfolding d' unfolding eq
      using that persist_after_send_sheet [of env ?s1] by (simp add: send_with_retries_writes)
    from ev stt sh show ?thesis unfolding sending by auto
  qed
qed

end
